theory Spec2Isabelle
  imports Main "HOL-Library.Multiset"
begin

section \<open>Exceptions and messages\<close>

text \<open>
  Python exceptions are values. Each constructor stands for a class (with its
  subclasses) and carries the message that \<^verbatim>\<open>str(e)\<close> returns. All of them derive from
  \<^verbatim>\<open>Exception\<close>, so \<^verbatim>\<open>except Exception\<close> catches every one; \<^verbatim>\<open>except pickle.PickleError\<close>
  catches \<open>PickleError\<close> only.
\<close>

datatype exn =
    Exception string
  | AssertionError string
  | AttributeError string
  | IndexError string
  | IOError string
  | PickleError string
  | TypeError string
  | ValueError string
  | Empty

fun str_exn :: "exn \<Rightarrow> string" where
  "str_exn (Exception m) = m"
| "str_exn (AssertionError m) = m"
| "str_exn (AttributeError m) = m"
| "str_exn (IndexError m) = m"
| "str_exn (IOError m) = m"
| "str_exn (PickleError m) = m"
| "str_exn (TypeError m) = m"
| "str_exn (ValueError m) = m"
| "str_exn Empty = []"

text \<open>
  \<^verbatim>\<open>_MessageType\<close> with the payload each tuple \<^verbatim>\<open>(msg_type, payload)\<close> carries:
  \<^verbatim>\<open>(Request, msg)\<close>, \<^verbatim>\<open>(Response, resp)\<close>, \<^verbatim>\<open>(Close, None)\<close>, \<^verbatim>\<open>(Done, post_fn(...))\<close>,
  \<^verbatim>\<open>(Error, (worker_num, str(e)))\<close>.
\<close>

datatype ('j, 'r, 'f) message =
    Request 'j
  | Response 'r
  | Close
  | Done 'f
  | Error nat string

fun is_Response :: "('j, 'r, 'f) message \<Rightarrow> bool" where
  "is_Response (Response r) = True"
| "is_Response m = False"

fun is_terminal :: "('j, 'r, 'f) message \<Rightarrow> bool" where
  "is_terminal (Done f) = True"
| "is_terminal (Error n s) = True"
| "is_terminal m = False"

section \<open>Constructor arguments\<close>

text \<open>
  The arguments of \<^verbatim>\<open>make_pool\<close>, \<^verbatim>\<open>ProcessPool\<close> and \<^verbatim>\<open>AsyncPool\<close>. A function that may
  raise returns \<open>exn + result\<close>. \<open>host = None\<close> is a falsy host. \<^verbatim>\<open>typ.host\<close> is not among
  the source files: \<open>Host\<close> is the object \<^verbatim>\<open>Host()\<close> builds and \<open>for_mp\<close> is the host's
  method of that name (\<open>None\<close> when it returns a falsy value).
\<close>

record ('h, 'c, 'd, 'f, 'j, 'r) args =
  host :: "'h option"
  jobs :: int
  callback :: "'d \<Rightarrow> 'j \<Rightarrow> exn + 'r"
  "context" :: "'c"
  pre_fn :: "'h \<Rightarrow> nat \<Rightarrow> 'c \<Rightarrow> exn + 'd"
  post_fn :: "'d \<Rightarrow> exn + 'f"
  Host :: "'h"
  for_mp :: "'h \<Rightarrow> 'h option"

section \<open>The worker: \<^verbatim>\<open>_loop\<close>\<close>

text \<open>
  A worker process is at one of these points of \<^verbatim>\<open>_loop\<close>:
  \<^item> \<open>Starting\<close>: line 149, before \<^verbatim>\<open>pre_fn\<close> is called;
  \<^item> \<open>Waiting d\<close>: line 154, at \<^verbatim>\<open>requests.get(block=True)\<close>, with \<^verbatim>\<open>context_after_pre = d\<close>;
  \<^item> \<open>Replying d r\<close>: line 159, about to put \<^verbatim>\<open>(Response, r)\<close>;
  \<^item> \<open>Failing e\<close>: line 161, in the handler of \<^verbatim>\<open>except Exception as e\<close>;
  \<^item> \<open>Closing d\<close>: line 164, after \<^verbatim>\<open>break\<close>, with \<^verbatim>\<open>erred = False\<close>;
  \<^item> \<open>Exited\<close>: the function has returned (or the process was terminated).
  A step does at most one operation on a shared queue.
\<close>

datatype ('d, 'r) process =
    Starting
  | Waiting 'd
  | Replying 'd 'r
  | Failing exn
  | Closing 'd
  | Exited

text \<open>The host a worker uses: \<^verbatim>\<open>host.for_mp()\<close> is passed in, then \<^verbatim>\<open>host = host or Host()\<close>.\<close>

definition loop_host :: "('h, 'c, 'd, 'f, 'j, 'r) args \<Rightarrow> 'h" where
  "loop_host a = (case Option.bind (host a) (for_mp a) of None \<Rightarrow> Host a | Some h \<Rightarrow> h)"

text \<open>
  \<open>worker_step a worker_num w requests\<close> is the next step of the worker at point \<open>w\<close>
  when the request queue holds \<open>requests\<close>: the new point, the queue it leaves and what
  it puts on the response queue. \<open>None\<close>: the worker is blocked in \<^verbatim>\<open>get\<close>, or has exited.
  A failed \<^verbatim>\<open>assert\<close> raises \<^verbatim>\<open>AssertionError()\<close>, whose \<^verbatim>\<open>str\<close> is empty.
\<close>

fun worker_step ::
  "('h, 'c, 'd, 'f, 'j, 'r) args \<Rightarrow> nat \<Rightarrow> ('d, 'r) process \<Rightarrow> ('j, 'r, 'f) message list \<Rightarrow>
   (('d, 'r) process \<times> ('j, 'r, 'f) message list \<times> ('j, 'r, 'f) message list) option" where
  "worker_step a n Starting reqs =
     (case pre_fn a (loop_host a) n (context a) of
        Inl e \<Rightarrow> Some (Failing e, reqs, [])
      | Inr d \<Rightarrow> Some (Waiting d, reqs, []))"
| "worker_step a n (Waiting d) [] = None"
| "worker_step a n (Waiting d) (Close # reqs) = Some (Closing d, reqs, [])"
| "worker_step a n (Waiting d) (Request x # reqs) =
     (case callback a d x of
        Inl e \<Rightarrow> Some (Failing e, reqs, [])
      | Inr r \<Rightarrow> Some (Replying d r, reqs, []))"
| "worker_step a n (Waiting d) (m # reqs) = Some (Failing (AssertionError []), reqs, [])"
| "worker_step a n (Replying d r) reqs = Some (Waiting d, reqs, [Response r])"
| "worker_step a n (Failing e) reqs = Some (Exited, reqs, [Error n (str_exn e)])"
| "worker_step a n (Closing d) reqs =
     (case post_fn a d of
        Inl e \<Rightarrow> Some (Exited, reqs, [])
      | Inr f \<Rightarrow> Some (Exited, reqs, [Done f]))"
| "worker_step a n Exited reqs = None"

text \<open>
  One worker on its own: \<open>drive\<close> runs it on the requests it will be given until it
  blocks on an empty queue or returns, collecting what it puts on the response queue.
\<close>

fun rank :: "('d, 'r) process \<Rightarrow> nat" where
  "rank Starting = 3"
| "rank (Waiting d) = 1"
| "rank (Replying d r) = 2"
| "rank (Failing e) = 1"
| "rank (Closing d) = 1"
| "rank Exited = 0"

lemma worker_step_decreases:
  "worker_step a n w reqs = Some (w', reqs', out) \<Longrightarrow>
   2 * length reqs' + rank w' < 2 * length reqs + rank w"
  by (induction a n w reqs rule: worker_step.induct) (auto split: sum.splits)

function drive ::
  "('h, 'c, 'd, 'f, 'j, 'r) args \<Rightarrow> nat \<Rightarrow>
   ('d, 'r) process \<times> ('j, 'r, 'f) message list \<times> ('j, 'r, 'f) message list \<Rightarrow>
   ('d, 'r) process \<times> ('j, 'r, 'f) message list \<times> ('j, 'r, 'f) message list" where
  "drive a n (w, reqs, outs) =
     (case worker_step a n w reqs of
        None \<Rightarrow> (w, reqs, outs)
      | Some (w', reqs', out) \<Rightarrow> drive a n (w', reqs', outs @ out))"
  by pat_completeness auto
termination
  by (relation "measure (\<lambda>(a, n, w, reqs, outs). 2 * length reqs + rank w)")
     (auto dest: worker_step_decreases)

text \<open>\<^verbatim>\<open>_loop\<close> from its first line, and the worker after \<open>k\<close> of its steps.\<close>

definition loop ::
  "('h, 'c, 'd, 'f, 'j, 'r) args \<Rightarrow> nat \<Rightarrow> ('j, 'r, 'f) message list \<Rightarrow>
   ('d, 'r) process \<times> ('j, 'r, 'f) message list \<times> ('j, 'r, 'f) message list" where
  "loop a n reqs = drive a n (Starting, reqs, [])"

fun steps ::
  "('h, 'c, 'd, 'f, 'j, 'r) args \<Rightarrow> nat \<Rightarrow> nat \<Rightarrow>
   ('d, 'r) process \<times> ('j, 'r, 'f) message list \<times> ('j, 'r, 'f) message list \<Rightarrow>
   ('d, 'r) process \<times> ('j, 'r, 'f) message list \<times> ('j, 'r, 'f) message list" where
  "steps a n 0 c = c"
| "steps a n (Suc k) (w, reqs, outs) =
     (case worker_step a n w reqs of
        None \<Rightarrow> (w, reqs, outs)
      | Some (w', reqs', out) \<Rightarrow> steps a n k (w', reqs', outs @ out))"


section \<open>The parallel variant: \<^verbatim>\<open>ProcessPool\<close>\<close>

text \<open>
  The mutable attributes of a \<^verbatim>\<open>ProcessPool\<close>; \<^verbatim>\<open>host\<close> and \<^verbatim>\<open>jobs\<close> never change and stay
  in the arguments. A \<^verbatim>\<open>multiprocessing.Queue\<close> is the list of the messages put and not
  yet taken, oldest first, and the flag its \<^verbatim>\<open>close()\<close> sets in the dispatcher's process.
  \<open>workers ! i\<close> is the point the process started with \<^verbatim>\<open>worker_num = i\<close> has reached.
\<close>

record ('j, 'r, 'd, 'f) process_pool =
  requests :: "('j, 'r, 'f) message list"
  requests_closed :: bool
  responses :: "('j, 'r, 'f) message list"
  responses_closed :: bool
  workers :: "('d, 'r) process list"
  closed :: bool
  erred :: bool

text \<open>
  \<^verbatim>\<open>ProcessPool.__init__\<close>: \<^verbatim>\<open>range(jobs)\<close> numbers the workers from 0. Evaluating
  \<^verbatim>\<open>host.for_mp()\<close> for the first worker raises \<^verbatim>\<open>AttributeError\<close> when \<^verbatim>\<open>host\<close> is \<^verbatim>\<open>None\<close>.
\<close>

definition ProcessPool ::
  "('h, 'c, 'd, 'f, 'j, 'r) args \<Rightarrow> exn + ('j, 'r, 'd, 'f) process_pool" where
  "ProcessPool a =
     (if 0 < jobs a \<and> host a = None
      then Inl (AttributeError
             (CHR 0x27 # ''NoneType' object has no attribute 'for_mp'' @ [CHR 0x27]))
      else Inr \<lparr>requests = [], requests_closed = False,
                responses = [], responses_closed = False,
                workers = map (\<lambda>worker_num. Starting) [0..<nat (jobs a)],
                closed = False, erred = False\<rparr>)"

text \<open>
  \<^verbatim>\<open>send\<close>. Putting on a queue this process has closed fails (an \<^verbatim>\<open>assert\<close> in Python 2.7's
  \<^verbatim>\<open>multiprocessing\<close>).
\<close>

definition ProcessPool_send ::
  "'j \<Rightarrow> ('j, 'r, 'd, 'f, 'z) process_pool_scheme \<Rightarrow>
   (exn + unit) \<times> ('j, 'r, 'd, 'f, 'z) process_pool_scheme" where
  "ProcessPool_send msg p =
     (if requests_closed p then (Inl (AssertionError []), p)
      else (Inr (), p\<lparr>requests := requests p @ [Request msg]\<rparr>))"

text \<open>\<^verbatim>\<open>"%d" % worker_num\<close>: the decimal digits of a natural number.\<close>

fun dec :: "nat \<Rightarrow> string" where
  "dec n = (if n < 10 then [''0123456789'' ! n] else dec (n div 10) @ [''0123456789'' ! (n mod 10)])"

declare dec.simps [simp del]

text \<open>\<^verbatim>\<open>_handle_error\<close>: sets \<^verbatim>\<open>erred\<close> and raises.\<close>

definition handle_error ::
  "nat \<times> string \<Rightarrow> ('j, 'r, 'd, 'f, 'z) process_pool_scheme \<Rightarrow>
   exn \<times> ('j, 'r, 'd, 'f, 'z) process_pool_scheme" where
  "handle_error msg p =
     (case msg of (worker_num, ex_str) \<Rightarrow>
        (Exception (''error from worker '' @ dec worker_num @ '': '' @ ex_str),
         p\<lparr>erred := True\<rparr>))"

text \<open>
  \<^verbatim>\<open>get\<close>. \<open>None\<close>: the call is blocked on the empty queue (\<^verbatim>\<open>block\<close> true and no timeout);
  with \<^verbatim>\<open>block\<close> false or a timeout that has run out the queue raises \<^verbatim>\<open>Empty\<close>. Reading
  a queue closed in this process fails. A message that is neither \<^verbatim>\<open>Error\<close> nor
  \<^verbatim>\<open>Response\<close> fails the \<^verbatim>\<open>assert\<close>.
\<close>

definition ProcessPool_get ::
  "bool \<Rightarrow> nat option \<Rightarrow> ('j, 'r, 'd, 'f, 'z) process_pool_scheme \<Rightarrow>
   ((exn + 'r) \<times> ('j, 'r, 'd, 'f, 'z) process_pool_scheme) option" where
  "ProcessPool_get block timeout p =
     (if responses_closed p then Some (Inl (IOError ''handle is closed''), p)
      else case responses p of
        [] \<Rightarrow> if block \<and> timeout = None then None else Some (Inl Empty, p)
      | m # rest \<Rightarrow>
          (case m of
             Error worker_num ex_str \<Rightarrow>
               (case handle_error (worker_num, ex_str) (p\<lparr>responses := rest\<rparr>) of
                  (e, p') \<Rightarrow> Some (Inl e, p'))
           | Response resp \<Rightarrow> Some (Inr resp, p\<lparr>responses := rest\<rparr>)
           | _ \<Rightarrow> Some (Inl (AssertionError []), p\<lparr>responses := rest\<rparr>)))"

text \<open>\<^verbatim>\<open>close\<close>: one \<^verbatim>\<open>Close\<close> per worker, then \<^verbatim>\<open>requests.close()\<close> and \<^verbatim>\<open>closed = True\<close>.\<close>

definition ProcessPool_close ::
  "('j, 'r, 'd, 'f, 'z) process_pool_scheme \<Rightarrow>
   (exn + unit) \<times> ('j, 'r, 'd, 'f, 'z) process_pool_scheme" where
  "ProcessPool_close p =
     (if requests_closed p \<and> workers p \<noteq> [] then (Inl (AssertionError []), p)
      else (Inr (), p\<lparr>requests := requests p @ map (\<lambda>w. Close) (workers p),
                       requests_closed := True, closed := True\<rparr>))"

text \<open>
  \<^verbatim>\<open>join\<close> blocks inside its loops, so it runs in steps. The dispatcher is at
  \<^item> \<open>Entering\<close>: line 91;
  \<^item> \<open>Draining k final_responses\<close>: line 100, at \<^verbatim>\<open>responses.get(True)\<close> for the \<open>k\<close>-th
    worker of the \<^verbatim>\<open>for\<close> loop (or past the last one, at line 108);
  \<^item> \<open>Reaping k final_responses\<close>: line 107, at \<^verbatim>\<open>w.join()\<close>, the \<^verbatim>\<open>Done\<close> payload appended.
  A step gives \<open>Inl\<close> the next point, or \<open>Inr\<close> what \<^verbatim>\<open>join\<close> returns or raises; \<open>None\<close> when
  it is blocked. Without a prior \<^verbatim>\<open>close\<close> every worker is terminated at once.
\<close>

datatype 'f joining =
    Entering
  | Draining nat "'f list"
  | Reaping nat "'f list"

fun join_step ::
  "'f joining \<Rightarrow> ('j, 'r, 'd, 'f, 'z) process_pool_scheme \<Rightarrow>
   (('f joining + (exn + 'f list)) \<times> ('j, 'r, 'd, 'f, 'z) process_pool_scheme) option" where
  "join_step Entering p =
     (if \<not> closed p
      then Some (Inr (Inr []),
                 p\<lparr>requests_closed := True,
                   workers := map (\<lambda>w. Exited) (workers p),
                   responses_closed := True\<rparr>)
      else Some (Inl (Draining 0 []), p))"
| "join_step (Draining k final_responses) p =
     (if length (workers p) \<le> k
      then Some (Inr (Inr final_responses), p\<lparr>responses_closed := True\<rparr>)
      else if responses_closed p then Some (Inr (Inl (IOError ''handle is closed'')), p)
      else case responses p of
        [] \<Rightarrow> None
      | m # rest \<Rightarrow>
          (case m of
             Error worker_num ex_str \<Rightarrow>
               (case handle_error (worker_num, ex_str) (p\<lparr>responses := rest\<rparr>) of
                  (e, p') \<Rightarrow> Some (Inr (Inl e), p'))
           | Done resp \<Rightarrow>
               Some (Inl (Reaping k (final_responses @ [resp])), p\<lparr>responses := rest\<rparr>)
           | _ \<Rightarrow> Some (Inl (Draining k final_responses), p\<lparr>responses := rest\<rparr>)))"
| "join_step (Reaping k final_responses) p =
     (if workers p ! k = Exited then Some (Inl (Draining (Suc k) final_responses), p)
      else None)"

section \<open>The in-process variant: \<^verbatim>\<open>AsyncPool\<close>\<close>

text \<open>
  The attributes of an \<^verbatim>\<open>AsyncPool\<close> that change or are computed; \<^verbatim>\<open>callback\<close> and
  \<^verbatim>\<open>post_fn\<close> stay in the arguments. \<open>async_closed\<close> is its \<^verbatim>\<open>closed\<close>; \<open>final_context = None\<close>
  is Python's \<^verbatim>\<open>None\<close>.
\<close>

record ('j, 'd, 'f) async_pool =
  msgs :: "'j list"
  async_closed :: bool
  context_after_pre :: "'d"
  final_context :: "'f option"

text \<open>\<^verbatim>\<open>AsyncPool.__init__\<close> calls \<^verbatim>\<open>pre_fn(self.host, 1, self.context)\<close>.\<close>

definition AsyncPool ::
  "('h, 'c, 'd, 'f, 'j, 'r) args \<Rightarrow> exn + ('j, 'd, 'f) async_pool" where
  "AsyncPool a =
     (case pre_fn a (case host a of None \<Rightarrow> Host a | Some h \<Rightarrow> h) 1 (context a) of
        Inl e \<Rightarrow> Inl e
      | Inr d \<Rightarrow> Inr \<lparr>msgs = [], async_closed = False,
                       context_after_pre = d, final_context = None\<rparr>)"

definition AsyncPool_send :: "'j \<Rightarrow> ('j, 'd, 'f) async_pool \<Rightarrow> ('j, 'd, 'f) async_pool" where
  "AsyncPool_send msg p = p\<lparr>msgs := msgs p @ [msg]\<rparr>"

text \<open>
  \<^verbatim>\<open>get\<close>: \<^verbatim>\<open>self.msgs.pop(0)\<close> is evaluated first and raises on an empty list; \<^verbatim>\<open>block\<close>
  and \<^verbatim>\<open>timeout\<close> are not used.
\<close>

definition AsyncPool_get ::
  "('h, 'c, 'd, 'f, 'j, 'r) args \<Rightarrow> bool \<Rightarrow> nat option \<Rightarrow> ('j, 'd, 'f) async_pool \<Rightarrow>
   (exn + 'r) \<times> ('j, 'd, 'f) async_pool" where
  "AsyncPool_get a block timeout p =
     (case msgs p of
        [] \<Rightarrow> (Inl (IndexError ''pop from empty list''), p)
      | m # rest \<Rightarrow> (callback a (context_after_pre p) m, p\<lparr>msgs := rest\<rparr>))"

definition AsyncPool_close ::
  "('h, 'c, 'd, 'f, 'j, 'r) args \<Rightarrow> ('j, 'd, 'f) async_pool \<Rightarrow>
   (exn + unit) \<times> ('j, 'd, 'f) async_pool" where
  "AsyncPool_close a p =
     (case post_fn a (context_after_pre p) of
        Inl e \<Rightarrow> (Inl e, p\<lparr>async_closed := True\<rparr>)
      | Inr f \<Rightarrow> (Inr (), p\<lparr>async_closed := True, final_context := Some f\<rparr>))"

definition AsyncPool_join ::
  "('h, 'c, 'd, 'f, 'j, 'r) args \<Rightarrow> ('j, 'd, 'f) async_pool \<Rightarrow>
   (exn + 'f option list) \<times> ('j, 'd, 'f) async_pool" where
  "AsyncPool_join a p =
     (if \<not> async_closed p
      then (case AsyncPool_close a p of
              (Inl e, p') \<Rightarrow> (Inl e, p')
            | (Inr u, p') \<Rightarrow> (Inr [final_context p'], p'))
      else (Inr [final_context p], p))"

section \<open>\<^verbatim>\<open>make_pool\<close>\<close>

text \<open>
  \<open>dumps_pre\<close> and \<open>dumps_post\<close> are \<^verbatim>\<open>pickle.dumps\<close> on a setup and on a teardown function:
  the exception it raises, or the pickled bytes. Only \<^verbatim>\<open>pickle.PickleError\<close> is caught and
  turned into \<^verbatim>\<open>ValueError\<close>; any other exception leaves \<^verbatim>\<open>make_pool\<close> as it is.
\<close>

definition make_pool ::
  "(('h \<Rightarrow> nat \<Rightarrow> 'c \<Rightarrow> exn + 'd) \<Rightarrow> exn + string) \<Rightarrow> (('d \<Rightarrow> exn + 'f) \<Rightarrow> exn + string) \<Rightarrow>
   ('h, 'c, 'd, 'f, 'j, 'r) args \<Rightarrow>
   exn + (('j, 'r, 'd, 'f) process_pool + ('j, 'd, 'f) async_pool)" where
  "make_pool dumps_pre dumps_post a =
     (case dumps_pre (pre_fn a) of
        Inl (PickleError m) \<Rightarrow> Inl (ValueError ''pre_fn passed to make_pool is not picklable'')
      | Inl e \<Rightarrow> Inl e
      | Inr u \<Rightarrow>
          (case dumps_post (post_fn a) of
             Inl (PickleError m) \<Rightarrow>
               Inl (ValueError ''post_fn passed to make_pool is not picklable'')
           | Inl e \<Rightarrow> Inl e
           | Inr v \<Rightarrow>
               (if 1 < jobs a then map_sum id Inl (ProcessPool a)
                else map_sum id Inr (AsyncPool a))))"


section \<open>A pool and its workers running together\<close>

text \<open>
  The caller of a \<^verbatim>\<open>ProcessPool\<close> makes the calls of \<open>todo\<close> one after the other, while the
  worker processes run on their own. \<open>outputs\<close> records what each finished call returned or
  raised (after an exception the caller goes on with its next call; a caller that stops
  is a shorter \<open>todo\<close>). \<open>joining\<close> is where the dispatcher is inside \<^verbatim>\<open>join\<close>.
\<close>

datatype 'j call =
    CallSend 'j
  | CallGet bool "nat option"
  | CallClose
  | CallJoin

datatype ('r, 'f) outcome =
    Returned_None
  | Returned_resp 'r
  | Returned_finals "'f list"
  | Raised exn

record ('j, 'r, 'd, 'f) system = "('j, 'r, 'd, 'f) process_pool" +
  todo :: "'j call list"
  joining :: "'f joining"
  outputs :: "('r, 'f) outcome list"

definition with_calls ::
  "('j, 'r, 'd, 'f) process_pool \<Rightarrow> 'j call list \<Rightarrow> ('j, 'r, 'd, 'f) system" where
  "with_calls p calls =
     process_pool.extend p (system.fields calls Entering [])"

fun finish :: "('j, 'r, 'd, 'f) system \<Rightarrow> ('r, 'f) outcome \<Rightarrow> ('j, 'r, 'd, 'f) system" where
  "finish s out = s\<lparr>todo := tl (todo s), outputs := outputs s @ [out]\<rparr>"

text \<open>One step of the caller: the whole of its next call, or one step of \<^verbatim>\<open>join\<close>.\<close>

fun caller_step :: "('j, 'r, 'd, 'f) system \<Rightarrow> ('j, 'r, 'd, 'f) system option" where
  "caller_step s =
     (case todo s of
        [] \<Rightarrow> None
      | CallSend msg # calls \<Rightarrow>
          (case ProcessPool_send msg s of
             (Inl e, s') \<Rightarrow> Some (finish s' (Raised e))
           | (Inr u, s') \<Rightarrow> Some (finish s' Returned_None))
      | CallGet block timeout # calls \<Rightarrow>
          (case ProcessPool_get block timeout s of
             None \<Rightarrow> None
           | Some (Inl e, s') \<Rightarrow> Some (finish s' (Raised e))
           | Some (Inr resp, s') \<Rightarrow> Some (finish s' (Returned_resp resp)))
      | CallClose # calls \<Rightarrow>
          (case ProcessPool_close s of
             (Inl e, s') \<Rightarrow> Some (finish s' (Raised e))
           | (Inr u, s') \<Rightarrow> Some (finish s' Returned_None))
      | CallJoin # calls \<Rightarrow>
          (case join_step (joining s) s of
             None \<Rightarrow> None
           | Some (Inl pc, s') \<Rightarrow> Some (s'\<lparr>joining := pc\<rparr>)
           | Some (Inr (Inl e), s') \<Rightarrow> Some (finish (s'\<lparr>joining := Entering\<rparr>) (Raised e))
           | Some (Inr (Inr final_responses), s') \<Rightarrow>
               Some (finish (s'\<lparr>joining := Entering\<rparr>) (Returned_finals final_responses))))"

text \<open>One step of worker \<open>i\<close> on the shared queues.\<close>

fun worker_event ::
  "('h, 'c, 'd, 'f, 'j, 'r) args \<Rightarrow> nat \<Rightarrow> ('j, 'r, 'd, 'f) system \<Rightarrow>
   ('j, 'r, 'd, 'f) system option" where
  "worker_event a i s =
     (if i < length (workers s)
      then (case worker_step a i (workers s ! i) (requests s) of
              None \<Rightarrow> None
            | Some (w, reqs, out) \<Rightarrow>
                Some (s\<lparr>workers := (workers s)[i := w], requests := reqs,
                        responses := responses s @ out\<rparr>))
      else None)"

text \<open>
  A schedule is a list of events, each naming who moves next. An event whose process is
  blocked (or has finished) changes nothing.
\<close>

datatype event = Caller | Worker nat

fun step ::
  "('h, 'c, 'd, 'f, 'j, 'r) args \<Rightarrow> event \<Rightarrow> ('j, 'r, 'd, 'f) system \<Rightarrow>
   ('j, 'r, 'd, 'f) system option" where
  "step a Caller s = caller_step s"
| "step a (Worker i) s = worker_event a i s"

fun run ::
  "('h, 'c, 'd, 'f, 'j, 'r) args \<Rightarrow> event list \<Rightarrow> ('j, 'r, 'd, 'f) system \<Rightarrow>
   ('j, 'r, 'd, 'f) system" where
  "run a [] s = s"
| "run a (e # es) s = run a es (case step a e s of None \<Rightarrow> s | Some s' \<Rightarrow> s')"


section \<open>Example arguments\<close>

text \<open>
  The scenario of the specification: the initial context is 0, setup adds 1, the callback
  adds the job to the derived context, teardown returns the derived context.
\<close>

definition adder :: "(unit, int, int, int, int, int) args" where
  "adder = \<lparr>host = Some (), jobs = 2, callback = (\<lambda>d job. Inr (d + job)), context = 0,
             pre_fn = (\<lambda>h worker_num c. Inr (c + 1)), post_fn = (\<lambda>d. Inr d),
             Host = (), for_mp = Some\<rparr>"

text \<open>Arguments whose setup returns the worker index it is given, for one worker.\<close>

definition indexer :: "(unit, nat, nat, nat, nat, nat) args" where
  "indexer = \<lparr>host = Some (), jobs = 1, callback = (\<lambda>d job. Inr d), context = 0,
               pre_fn = (\<lambda>h worker_num c. Inr worker_num), post_fn = (\<lambda>d. Inr d),
               Host = (), for_mp = Some\<rparr>"

section \<open>The worker emits at most one terminal message\<close>

declare drive.simps [simp del]

lemma drive_blocked:
  "worker_step a n w reqs = None \<Longrightarrow> drive a n (w, reqs, outs) = (w, reqs, outs)"
  by (subst drive.simps) simp

lemma drive_step:
  "worker_step a n w reqs = Some (w', reqs', out) \<Longrightarrow>
   drive a n (w, reqs, outs) = drive a n (w', reqs', outs @ out)"
  by (subst drive.simps) simp

lemma drive_steps: "drive a n (steps a n k c) = drive a n c"
proof (induction k arbitrary: c)
  case 0
  show ?case by simp
next
  case (Suc k)
  obtain w reqs outs where c: "c = (w, reqs, outs)" by (cases c) auto
  show ?case
  proof (cases "worker_step a n w reqs")
    case None
    then show ?thesis using c by simp
  next
    case (Some t)
    obtain w' reqs' out where t: "t = (w', reqs', out)" by (cases t) auto
    show ?thesis using c Some t Suc.IH [of "(w', reqs', outs @ out)"]
      by (simp add: drive_step)
  qed
qed

text \<open>What a worker has put so far: responses only while it runs, and at most one terminal message once it has exited.\<close>

fun tidy :: "('d, 'r) process \<Rightarrow> ('j, 'r, 'f) message list \<Rightarrow> bool" where
  "tidy Exited outs = (length (filter is_terminal outs) \<le> 1)"
| "tidy w outs = list_all is_Response outs"

lemma Response_not_terminal: "is_Response m \<Longrightarrow> \<not> is_terminal m"
  by (cases m) auto

lemma all_Response_no_terminal: "list_all is_Response outs \<Longrightarrow> filter is_terminal outs = []"
  by (induction outs) (auto dest: Response_not_terminal)

lemma tidy_step:
  "worker_step a n w reqs = Some (w', reqs', out) \<Longrightarrow> tidy w outs \<Longrightarrow> tidy w' (outs @ out)"
  by (induction a n w reqs rule: worker_step.induct)
     (auto split: sum.splits simp: all_Response_no_terminal)

lemma tidy_steps:
  "tidy w outs \<Longrightarrow> steps a n k (w, reqs, outs) = (w', reqs', outs') \<Longrightarrow> tidy w' outs'"
proof (induction k arbitrary: w reqs outs)
  case 0
  then show ?case by simp
next
  case (Suc k)
  show ?case
  proof (cases "worker_step a n w reqs")
    case None
    then show ?thesis using Suc.prems by simp
  next
    case (Some t)
    obtain w1 reqs1 out where t: "t = (w1, reqs1, out)" by (cases t) auto
    have "tidy w1 (outs @ out)" using Some t Suc.prems(1) by (auto intro: tidy_step)
    then show ?thesis using Suc.IH [of w1 "outs @ out" reqs1] Suc.prems(2) Some t by simp
  qed
qed











text \<open>
  Claim C7. A worker whose setup and job loop finished without error is at line 164
  (\<open>Closing d\<close>). If \<^verbatim>\<open>post_fn\<close> raises there, \<^verbatim>\<open>_loop\<close> returns having put nothing more:
  everything the worker ever put is a response, so the dispatcher gets neither a \<^verbatim>\<open>Done\<close>
  nor an \<^verbatim>\<open>Error\<close> from it.
\<close>

theorem teardown_failure_swallowed:
  assumes "steps a n k (Starting, reqs, []) = (Closing d, rest, outs)"
    and "post_fn a d = Inl e"
  shows "loop a n reqs = (Exited, rest, outs) \<and> list_all is_Response outs
    \<and> filter is_terminal outs = []"
proof -
  have "loop a n reqs = drive a n (steps a n k (Starting, reqs, []))"
    by (simp add: loop_def drive_steps)
  also have "\<dots> = drive a n (Exited, rest, outs)"
    using assms by (simp add: drive_step)
  finally have 1: "loop a n reqs = (Exited, rest, outs)"
    by (simp add: drive_blocked)
  have "tidy (Closing d) outs" using tidy_steps [OF _ assms(1)] by simp
  then have "list_all is_Response outs" by simp
  then show ?thesis using 1 by (simp add: all_Response_no_terminal)
qed

theorem teardown_failure_swallowed_witness:
  "steps (adder\<lparr>post_fn := (\<lambda>d. Inl (Exception ''teardown''))\<rparr>) 0 (Suc (Suc (Suc (Suc 0))))
     (Starting, [Request 5, Close], [])
     = (Closing 1, [], [Response 6])
   \<and> post_fn (adder\<lparr>post_fn := (\<lambda>d. Inl (Exception ''teardown''))\<rparr>) 1
     = Inl (Exception ''teardown'')
   \<and> loop (adder\<lparr>post_fn := (\<lambda>d. Inl (Exception ''teardown''))\<rparr>) 0 [Request 5, Close]
     = (Exited, [], [Response 6])"
  using teardown_failure_swallowed [of "adder\<lparr>post_fn := (\<lambda>d. Inl (Exception ''teardown''))\<rparr>"
      0 "Suc (Suc (Suc (Suc 0)))" "[Request 5, Close]" 1 "[]" "[Response 6]"
      "Exception ''teardown''"]
  by (simp add: adder_def)

section \<open>Errors surfaced by \<^verbatim>\<open>get\<close>\<close>

text \<open>
  Claim C8. When the message \<^verbatim>\<open>get\<close> takes from the response queue is an \<^verbatim>\<open>Error\<close>, the call
  raises an exception whose text holds the worker index and the worker's failure text,
  and the pool it leaves has \<^verbatim>\<open>erred\<close> set.
\<close>

theorem get_error_raises:
  assumes "\<not> responses_closed p"
    and "responses p = Error worker_num ex_str # rest"
  shows "ProcessPool_get block timeout p =
           Some (Inl (Exception (''error from worker '' @ dec worker_num @ '': '' @ ex_str)),
                 p\<lparr>responses := rest, erred := True\<rparr>)
         \<and> erred (p\<lparr>responses := rest, erred := True\<rparr>)"
  using assms by (simp add: ProcessPool_get_def handle_error_def)

theorem get_error_raises_witness:
  "\<not> responses_closed
       \<lparr>requests = [], requests_closed = False,
        responses = [Error 3 ''boom'' :: (nat, nat, nat) message], responses_closed = False,
        workers = [Exited :: (nat, nat) process], closed = False, erred = False\<rparr>
   \<and> ProcessPool_get True None
       \<lparr>requests = [], requests_closed = False,
        responses = [Error 3 ''boom'' :: (nat, nat, nat) message], responses_closed = False,
        workers = [Exited :: (nat, nat) process], closed = False, erred = False\<rparr>
     = Some (Inl (Exception ''error from worker 3: boom''),
         \<lparr>requests = [], requests_closed = False,
          responses = [], responses_closed = False,
          workers = [Exited], closed = False, erred = True\<rparr>)"
  using get_error_raises [of
      "\<lparr>requests = [], requests_closed = False,
        responses = [Error 3 ''boom'' :: (nat, nat, nat) message], responses_closed = False,
        workers = [Exited :: (nat, nat) process], closed = False, erred = False\<rparr>"
      3 "''boom''" "[]" True None]
  by (simp add: dec.simps)

section \<open>\<^verbatim>\<open>AsyncPool.get\<close> on an empty list\<close>

text \<open>
  Claim C10. With no unconsumed message, \<^verbatim>\<open>AsyncPool.get\<close> raises \<^verbatim>\<open>IndexError\<close> (pop from
  an empty list) whatever \<^verbatim>\<open>block\<close> and \<^verbatim>\<open>timeout\<close> are, and leaves the pool as it was.
\<close>

theorem async_get_empty:
  "msgs p = [] \<Longrightarrow>
   AsyncPool_get a block timeout p = (Inl (IndexError ''pop from empty list''), p)"
  by (simp add: AsyncPool_get_def)

theorem async_get_empty_witness:
  "AsyncPool adder = Inr \<lparr>msgs = [], async_closed = False, context_after_pre = 1,
                          final_context = None\<rparr>
   \<and> AsyncPool_get adder False (Some 3)
       \<lparr>msgs = [], async_closed = False, context_after_pre = 1, final_context = None\<rparr>
     = (Inl (IndexError ''pop from empty list''),
        \<lparr>msgs = [], async_closed = False, context_after_pre = 1, final_context = None\<rparr>)"
  using async_get_empty [of
      "\<lparr>msgs = [], async_closed = False, context_after_pre = 1, final_context = None\<rparr>"
      adder False "Some 3"]
  by (simp add: AsyncPool_def adder_def)


section \<open>Construction fails before any worker is started\<close>

text \<open>
  Claim C9, as amended. When pickling the setup function raises, or pickling it succeeds
  and pickling the teardown function raises, \<^verbatim>\<open>make_pool\<close> raises and builds no pool (no
  worker is started): \<^verbatim>\<open>ValueError\<close> when the pickler raised \<^verbatim>\<open>pickle.PickleError\<close>, and the
  pickler's own exception otherwise.
\<close>

theorem make_pool_fails_fast:
  "(dumps_pre (pre_fn a) = Inl (PickleError m) \<longrightarrow>
      make_pool dumps_pre dumps_post a
        = Inl (ValueError ''pre_fn passed to make_pool is not picklable''))
   \<and> (dumps_pre (pre_fn a) = Inr u \<and> dumps_post (post_fn a) = Inl (PickleError m) \<longrightarrow>
      make_pool dumps_pre dumps_post a
        = Inl (ValueError ''post_fn passed to make_pool is not picklable''))
   \<and> (dumps_pre (pre_fn a) = Inl e \<and> (\<forall>m'. e \<noteq> PickleError m') \<longrightarrow>
      make_pool dumps_pre dumps_post a = Inl e)
   \<and> (dumps_pre (pre_fn a) = Inr u \<and> dumps_post (post_fn a) = Inl e
        \<and> (\<forall>m'. e \<noteq> PickleError m') \<longrightarrow>
      make_pool dumps_pre dumps_post a = Inl e)"
  by (cases e) (simp_all add: make_pool_def)

theorem make_pool_fails_fast_witness:
  "make_pool (\<lambda>f. Inl (PickleError ''local function'')) (\<lambda>g. Inr ''bytes'') adder
     = Inl (ValueError ''pre_fn passed to make_pool is not picklable'')
   \<and> make_pool (\<lambda>f. Inr ''bytes'') (\<lambda>g. Inl (PickleError ''local function'')) adder
     = Inl (ValueError ''post_fn passed to make_pool is not picklable'')
   \<and> make_pool (\<lambda>f. Inr ''bytes'') (\<lambda>g. Inl (TypeError ''cannot pickle'')) adder
     = Inl (TypeError ''cannot pickle'')"
  using make_pool_fails_fast [of "\<lambda>f. Inl (PickleError ''local function'')" adder
      "''local function''" "\<lambda>g. Inr ''bytes''" "''bytes''" "TypeError ''cannot pickle''"]
    make_pool_fails_fast [of "\<lambda>f. Inr ''bytes''" adder
      "''local function''" "\<lambda>g. Inl (PickleError ''local function'')" "''bytes''"
      "TypeError ''cannot pickle''"]
    make_pool_fails_fast [of "\<lambda>f. Inr ''bytes''" adder
      "''local function''" "\<lambda>g. Inl (TypeError ''cannot pickle'')" "''bytes''"
      "TypeError ''cannot pickle''"]
  by simp

text \<open>
  Claim C9 as stated fails: a setup function whose pickling raises \<^verbatim>\<open>TypeError\<close> makes
  \<^verbatim>\<open>make_pool\<close> raise that \<^verbatim>\<open>TypeError\<close>, not a \<^verbatim>\<open>ValueError\<close>.
\<close>

theorem make_pool_not_ValueError:
  "make_pool (\<lambda>f. Inl (TypeError ''cannot pickle'')) (\<lambda>g. Inr ''bytes'') adder
     = Inl (TypeError ''cannot pickle'')
   \<and> \<not> (\<exists>m. make_pool (\<lambda>f. Inl (TypeError ''cannot pickle'')) (\<lambda>g. Inr ''bytes'') adder
            = Inl (ValueError m))"
  by (simp add: make_pool_def)

section \<open>\<^verbatim>\<open>join\<close> without \<^verbatim>\<open>close\<close>\<close>

text \<open>
  Claim C6, as amended. On a \<^verbatim>\<open>ProcessPool\<close> whose \<^verbatim>\<open>close\<close> was never called, \<^verbatim>\<open>join\<close> is one
  step that never blocks: it returns the empty list, every worker has exited (no worker
  takes another step), and the requests and responses still queued stay where they are,
  unprocessed and uncollected. On an \<^verbatim>\<open>AsyncPool\<close> that was not closed, \<^verbatim>\<open>join\<close> runs the
  teardown and returns the one-element list holding its result.
\<close>

theorem join_without_close:
  "(\<not> closed s \<and> joining s = Entering \<and> todo s = CallJoin # calls \<longrightarrow>
      (\<exists>s'. caller_step s = Some s'
         \<and> outputs s' = outputs s @ [Returned_finals []]
         \<and> todo s' = calls
         \<and> workers s' = map (\<lambda>w. Exited) (workers s)
         \<and> requests s' = requests s
         \<and> responses s' = responses s
         \<and> (\<forall>i. worker_event a i s' = None)))
   \<and> (\<not> async_closed q \<and> post_fn b (context_after_pre q) = Inr f \<longrightarrow>
      AsyncPool_join b q = (Inr [Some f], q\<lparr>async_closed := True, final_context := Some f\<rparr>))"
  by (auto simp: AsyncPool_join_def AsyncPool_close_def)

theorem join_without_close_witness:
  "caller_step
     \<lparr>requests = [Request 4], requests_closed = False,
      responses = [Response 3], responses_closed = False,
      workers = [Replying 1 4, Starting], closed = False, erred = False,
      todo = [CallJoin], joining = Entering, outputs = [Returned_None :: (int, int) outcome]\<rparr>
   = Some
     \<lparr>requests = [Request (4 :: int)], requests_closed = True,
      responses = [Response (3 :: int)], responses_closed = True,
      workers = [Exited :: (int, int) process, Exited], closed = False, erred = False,
      todo = [], joining = Entering, outputs = [Returned_None, Returned_finals []]\<rparr>
   \<and> AsyncPool_join adder
       \<lparr>msgs = [4], async_closed = False, context_after_pre = 1, final_context = None\<rparr>
     = (Inr [Some 1],
        \<lparr>msgs = [4], async_closed = True, context_after_pre = 1, final_context = Some 1\<rparr>)"
  using join_without_close [of
      "\<lparr>requests = [Request 4], requests_closed = False,
        responses = [Response 3], responses_closed = False,
        workers = [Replying 1 4, Starting], closed = False, erred = False,
        todo = [CallJoin], joining = Entering,
        outputs = [Returned_None :: (int, int) outcome]\<rparr>"
      "[]" adder
      "\<lparr>msgs = [4], async_closed = False, context_after_pre = 1, final_context = None\<rparr>"
      adder 1]
  by (simp add: adder_def ProcessPool_close_def)

text \<open>
  Claim C6 as stated fails for the in-process variant: \<^verbatim>\<open>join\<close> on a fresh \<^verbatim>\<open>AsyncPool\<close>
  that was never closed returns a list with one final context, not the empty list.
\<close>

theorem async_join_without_close_not_empty:
  "AsyncPool adder
     = Inr \<lparr>msgs = [], async_closed = False, context_after_pre = 1, final_context = None\<rparr>
   \<and> fst (AsyncPool_join adder
       \<lparr>msgs = [], async_closed = False, context_after_pre = 1, final_context = None\<rparr>)
     = Inr [Some 1]
   \<and> fst (AsyncPool_join adder
       \<lparr>msgs = [], async_closed = False, context_after_pre = 1, final_context = None\<rparr>)
     \<noteq> Inr []"
  by (simp add: AsyncPool_def AsyncPool_join_def AsyncPool_close_def adder_def)


section \<open>Every step of a running pool\<close>

text \<open>
  \<open>moves a s s'\<close> lists, case by case, the steps \<open>step\<close> can take from \<open>s\<close>: one rule for each
  branch of \<open>caller_step\<close> and of \<open>worker_event\<close>. Invariants of \<open>run\<close> are proved by rule
  induction on it.
\<close>

inductive moves ::
  "('h, 'c, 'd, 'f, 'j, 'r) args \<Rightarrow> ('j, 'r, 'd, 'f) system \<Rightarrow> ('j, 'r, 'd, 'f) system \<Rightarrow> bool"
  for a :: "('h, 'c, 'd, 'f, 'j, 'r) args" and s :: "('j, 'r, 'd, 'f) system" where
  send_ok: "todo s = CallSend x # calls \<Longrightarrow> \<not> requests_closed s \<Longrightarrow>
    s' = s\<lparr>requests := requests s @ [Request x], todo := calls,
           outputs := outputs s @ [Returned_None]\<rparr> \<Longrightarrow> moves a s s'"
| send_closed: "todo s = CallSend x # calls \<Longrightarrow> requests_closed s \<Longrightarrow>
    s' = s\<lparr>todo := calls, outputs := outputs s @ [Raised (AssertionError [])]\<rparr> \<Longrightarrow>
    moves a s s'"
| get_closed: "todo s = CallGet b t # calls \<Longrightarrow> responses_closed s \<Longrightarrow>
    s' = s\<lparr>todo := calls, outputs := outputs s @ [Raised (IOError ''handle is closed'')]\<rparr> \<Longrightarrow>
    moves a s s'"
| get_empty: "todo s = CallGet b t # calls \<Longrightarrow> \<not> responses_closed s \<Longrightarrow>
    responses s = [] \<Longrightarrow> \<not> (b \<and> t = None) \<Longrightarrow>
    s' = s\<lparr>todo := calls, outputs := outputs s @ [Raised Empty]\<rparr> \<Longrightarrow> moves a s s'"
| get_error: "todo s = CallGet b t # calls \<Longrightarrow> \<not> responses_closed s \<Longrightarrow>
    responses s = Error i m # rest \<Longrightarrow>
    s' = s\<lparr>responses := rest, erred := True, todo := calls,
           outputs := outputs s @ [Raised (Exception (''error from worker '' @ dec i @ '': '' @ m))]\<rparr> \<Longrightarrow>
    moves a s s'"
| get_resp: "todo s = CallGet b t # calls \<Longrightarrow> \<not> responses_closed s \<Longrightarrow>
    responses s = Response r # rest \<Longrightarrow>
    s' = s\<lparr>responses := rest, todo := calls, outputs := outputs s @ [Returned_resp r]\<rparr> \<Longrightarrow>
    moves a s s'"
| get_other: "todo s = CallGet b t # calls \<Longrightarrow> \<not> responses_closed s \<Longrightarrow>
    responses s = m # rest \<Longrightarrow> \<not> is_Response m \<Longrightarrow> (\<forall>i e. m \<noteq> Error i e) \<Longrightarrow>
    s' = s\<lparr>responses := rest, todo := calls,
           outputs := outputs s @ [Raised (AssertionError [])]\<rparr> \<Longrightarrow> moves a s s'"
| close_closed: "todo s = CallClose # calls \<Longrightarrow> requests_closed s \<Longrightarrow> workers s \<noteq> [] \<Longrightarrow>
    s' = s\<lparr>todo := calls, outputs := outputs s @ [Raised (AssertionError [])]\<rparr> \<Longrightarrow>
    moves a s s'"
| close_ok: "todo s = CallClose # calls \<Longrightarrow> \<not> requests_closed s \<or> workers s = [] \<Longrightarrow>
    s' = s\<lparr>requests := requests s @ map (\<lambda>w. Close) (workers s),
           requests_closed := True, closed := True, todo := calls,
           outputs := outputs s @ [Returned_None]\<rparr> \<Longrightarrow> moves a s s'"
| join_abnormal: "todo s = CallJoin # calls \<Longrightarrow> joining s = Entering \<Longrightarrow> \<not> closed s \<Longrightarrow>
    s' = s\<lparr>requests_closed := True, workers := map (\<lambda>w. Exited) (workers s),
           responses_closed := True, todo := calls,
           outputs := outputs s @ [Returned_finals []]\<rparr> \<Longrightarrow> moves a s s'"
| join_enter: "todo s = CallJoin # calls \<Longrightarrow> joining s = Entering \<Longrightarrow> closed s \<Longrightarrow>
    s' = s\<lparr>joining := Draining 0 []\<rparr> \<Longrightarrow> moves a s s'"
| join_finish: "todo s = CallJoin # calls \<Longrightarrow> joining s = Draining k acc \<Longrightarrow>
    length (workers s) \<le> k \<Longrightarrow>
    s' = s\<lparr>responses_closed := True, joining := Entering, todo := calls,
           outputs := outputs s @ [Returned_finals acc]\<rparr> \<Longrightarrow> moves a s s'"
| join_closed: "todo s = CallJoin # calls \<Longrightarrow> joining s = Draining k acc \<Longrightarrow>
    k < length (workers s) \<Longrightarrow> responses_closed s \<Longrightarrow>
    s' = s\<lparr>joining := Entering, todo := calls,
           outputs := outputs s @ [Raised (IOError ''handle is closed'')]\<rparr> \<Longrightarrow> moves a s s'"
| join_error: "todo s = CallJoin # calls \<Longrightarrow> joining s = Draining k acc \<Longrightarrow>
    k < length (workers s) \<Longrightarrow> \<not> responses_closed s \<Longrightarrow> responses s = Error i m # rest \<Longrightarrow>
    s' = s\<lparr>responses := rest, erred := True, joining := Entering, todo := calls,
           outputs := outputs s @ [Raised (Exception (''error from worker '' @ dec i @ '': '' @ m))]\<rparr> \<Longrightarrow>
    moves a s s'"
| join_done: "todo s = CallJoin # calls \<Longrightarrow> joining s = Draining k acc \<Longrightarrow>
    k < length (workers s) \<Longrightarrow> \<not> responses_closed s \<Longrightarrow> responses s = Done f # rest \<Longrightarrow>
    s' = s\<lparr>responses := rest, joining := Reaping k (acc @ [f])\<rparr> \<Longrightarrow> moves a s s'"
| join_discard: "todo s = CallJoin # calls \<Longrightarrow> joining s = Draining k acc \<Longrightarrow>
    k < length (workers s) \<Longrightarrow> \<not> responses_closed s \<Longrightarrow> responses s = m # rest \<Longrightarrow>
    (\<forall>f. m \<noteq> Done f) \<Longrightarrow> (\<forall>i e. m \<noteq> Error i e) \<Longrightarrow>
    s' = s\<lparr>responses := rest\<rparr> \<Longrightarrow> moves a s s'"
| join_reap: "todo s = CallJoin # calls \<Longrightarrow> joining s = Reaping k acc \<Longrightarrow>
    workers s ! k = Exited \<Longrightarrow>
    s' = s\<lparr>joining := Draining (Suc k) acc\<rparr> \<Longrightarrow> moves a s s'"
| setup_ok: "i < length (workers s) \<Longrightarrow> workers s ! i = Starting \<Longrightarrow>
    pre_fn a (loop_host a) i (context a) = Inr d \<Longrightarrow>
    s' = s\<lparr>workers := (workers s)[i := Waiting d]\<rparr> \<Longrightarrow> moves a s s'"
| setup_fail: "i < length (workers s) \<Longrightarrow> workers s ! i = Starting \<Longrightarrow>
    pre_fn a (loop_host a) i (context a) = Inl e \<Longrightarrow>
    s' = s\<lparr>workers := (workers s)[i := Failing e]\<rparr> \<Longrightarrow> moves a s s'"
| take_close: "i < length (workers s) \<Longrightarrow> workers s ! i = Waiting d \<Longrightarrow>
    requests s = Close # reqs \<Longrightarrow>
    s' = s\<lparr>workers := (workers s)[i := Closing d], requests := reqs\<rparr> \<Longrightarrow> moves a s s'"
| request_ok: "i < length (workers s) \<Longrightarrow> workers s ! i = Waiting d \<Longrightarrow>
    requests s = Request x # reqs \<Longrightarrow> callback a d x = Inr r \<Longrightarrow>
    s' = s\<lparr>workers := (workers s)[i := Replying d r], requests := reqs\<rparr> \<Longrightarrow> moves a s s'"
| request_fail: "i < length (workers s) \<Longrightarrow> workers s ! i = Waiting d \<Longrightarrow>
    requests s = Request x # reqs \<Longrightarrow> callback a d x = Inl e \<Longrightarrow>
    s' = s\<lparr>workers := (workers s)[i := Failing e], requests := reqs\<rparr> \<Longrightarrow> moves a s s'"
| assert_fail: "i < length (workers s) \<Longrightarrow> workers s ! i = Waiting d \<Longrightarrow>
    requests s = m # reqs \<Longrightarrow> m \<noteq> Close \<Longrightarrow> (\<forall>x. m \<noteq> Request x) \<Longrightarrow>
    s' = s\<lparr>workers := (workers s)[i := Failing (AssertionError [])], requests := reqs\<rparr> \<Longrightarrow>
    moves a s s'"
| reply: "i < length (workers s) \<Longrightarrow> workers s ! i = Replying d r \<Longrightarrow>
    s' = s\<lparr>workers := (workers s)[i := Waiting d], responses := responses s @ [Response r]\<rparr> \<Longrightarrow>
    moves a s s'"
| report: "i < length (workers s) \<Longrightarrow> workers s ! i = Failing e \<Longrightarrow>
    s' = s\<lparr>workers := (workers s)[i := Exited],
           responses := responses s @ [Error i (str_exn e)]\<rparr> \<Longrightarrow> moves a s s'"
| teardown_ok: "i < length (workers s) \<Longrightarrow> workers s ! i = Closing d \<Longrightarrow>
    post_fn a d = Inr f \<Longrightarrow>
    s' = s\<lparr>workers := (workers s)[i := Exited], responses := responses s @ [Done f]\<rparr> \<Longrightarrow>
    moves a s s'"
| teardown_fail: "i < length (workers s) \<Longrightarrow> workers s ! i = Closing d \<Longrightarrow>
    post_fn a d = Inl e \<Longrightarrow>
    s' = s\<lparr>workers := (workers s)[i := Exited]\<rparr> \<Longrightarrow> moves a s s'"

lemma caller_moves: "caller_step s = Some s' \<Longrightarrow> moves a s s'"
proof (cases "todo s")
  case Nil
  assume "caller_step s = Some s'"
  then show ?thesis using Nil by simp
next
  case (Cons c calls)
  assume st: "caller_step s = Some s'"
  show ?thesis
  proof (cases c)
    case (CallSend x)
    then show ?thesis using st Cons
      by (auto simp: ProcessPool_send_def split: if_splits intro: send_ok send_closed)
  next
    case (CallGet b t)
    show ?thesis
    proof (cases "responses_closed s")
      case True
      then show ?thesis using st Cons CallGet
        by (auto simp: ProcessPool_get_def intro: get_closed)
    next
      case False
      show ?thesis
      proof (cases "responses s")
        case Nil
        then show ?thesis using st Cons CallGet False
          by (auto simp: ProcessPool_get_def split: if_splits intro: get_empty)
      next
        case (Cons m rest)
        then show ?thesis using st \<open>todo s = c # calls\<close> CallGet False
          by (cases m)
             (auto simp: ProcessPool_get_def handle_error_def
               intro: get_error get_resp get_other)
      qed
    qed
  next
    case CallClose
    then show ?thesis using st Cons
      by (auto simp: ProcessPool_close_def split: if_splits intro: close_ok close_closed)
  next
    case CallJoin
    show ?thesis
    proof (cases "joining s")
      case Entering
      then show ?thesis using st Cons CallJoin
        by (auto split: if_splits intro: join_abnormal join_enter)
    next
      case (Draining k acc)
      show ?thesis
      proof (cases "length (workers s) \<le> k \<or> responses_closed s")
        case True
        then show ?thesis using st Cons CallJoin Draining
          by (auto split: if_splits intro: join_finish join_closed)
      next
        case False
        show ?thesis
        proof (cases "responses s")
          case Nil
          then show ?thesis using st Cons CallJoin Draining False by auto
        next
          case (Cons m rest)
          then show ?thesis using st \<open>todo s = c # calls\<close> CallJoin Draining False
            by (cases m)
               (auto simp: handle_error_def intro: join_error join_done join_discard)
        qed
      qed
    next
      case (Reaping k acc)
      then show ?thesis using st Cons CallJoin
        by (auto split: if_splits intro: join_reap)
    qed
  qed
qed

lemma worker_moves: "worker_event a i s = Some s' \<Longrightarrow> moves a s s'"
proof -
  assume st: "worker_event a i s = Some s'"
  then have i: "i < length (workers s)" by (auto split: if_splits)
  show ?thesis
  proof (cases "workers s ! i")
    case Starting
    then show ?thesis using st i
      by (auto split: sum.splits intro: setup_ok setup_fail)
  next
    case (Waiting d)
    show ?thesis
    proof (cases "requests s")
      case Nil
      then show ?thesis using st i Waiting by simp
    next
      case (Cons m reqs)
      then show ?thesis using st i Waiting
        by (cases m)
           (auto split: sum.splits intro: take_close request_ok request_fail assert_fail)
    qed
  next
    case (Replying d r)
    then show ?thesis using st i by (auto intro: reply)
  next
    case (Failing e)
    then show ?thesis using st i by (auto intro: report)
  next
    case (Closing d)
    then show ?thesis using st i
      by (auto split: sum.splits intro: teardown_ok teardown_fail)
  next
    case Exited
    then show ?thesis using st i by simp
  qed
qed

lemma step_moves: "step a e s = Some s' \<Longrightarrow> moves a s s'"
  by (cases e) (auto intro: caller_moves worker_moves)


text \<open>No step changes the number of workers.\<close>

lemma moves_length: "moves a s s' \<Longrightarrow> length (workers s') = length (workers s)"
  by (induction rule: moves.induct) simp_all

section \<open>Passthrough: what \<^verbatim>\<open>get\<close> returns\<close>

text \<open>
  A worker past its setup holds the derived context \<^verbatim>\<open>pre_fn(host, worker_num, context)\<close>
  of its own index.
\<close>

fun knows :: "('h, 'c, 'd, 'f, 'j, 'r) args \<Rightarrow> nat \<Rightarrow> ('d, 'r) process \<Rightarrow> bool" where
  "knows a i (Waiting d) = (pre_fn a (loop_host a) i (context a) = Inr d)"
| "knows a i (Replying d r) = (pre_fn a (loop_host a) i (context a) = Inr d)"
| "knows a i (Closing d) = (pre_fn a (loop_host a) i (context a) = Inr d)"
| "knows a i w = True"

definition derived ::
  "('h, 'c, 'd, 'f, 'j, 'r) args \<Rightarrow> ('j, 'r, 'd, 'f) system \<Rightarrow> bool" where
  "derived a s = (\<forall>i < length (workers s). knows a i (workers s ! i))"

lemma derived_moves: "moves a s s' \<Longrightarrow> derived a s \<Longrightarrow> derived a s'"
  by (induction rule: moves.induct) (auto simp: derived_def nth_list_update)

text \<open>
  The results in flight (responses queued, held by a worker about to reply, or already
  returned by \<^verbatim>\<open>get\<close>) and the jobs not yet taken by a worker (requests queued or still to
  be sent), as multisets. \<open>answers a n x r\<close>: \<open>r\<close> is the callback's result on job \<open>x\<close> with
  the derived context of one of the \<open>n\<close> workers.
\<close>

fun response_of :: "('j, 'r, 'f) message \<Rightarrow> 'r multiset" where
  "response_of (Response r) = {#r#}"
| "response_of m = {#}"

fun reply_of :: "('d, 'r) process \<Rightarrow> 'r multiset" where
  "reply_of (Replying d r) = {#r#}"
| "reply_of w = {#}"

fun result_of :: "('r, 'f) outcome \<Rightarrow> 'r multiset" where
  "result_of (Returned_resp r) = {#r#}"
| "result_of out = {#}"

fun request_of :: "('j, 'r, 'f) message \<Rightarrow> 'j multiset" where
  "request_of (Request x) = {#x#}"
| "request_of m = {#}"

fun send_of :: "'j call \<Rightarrow> 'j multiset" where
  "send_of (CallSend x) = {#x#}"
| "send_of c = {#}"

definition received :: "('j, 'r, 'd, 'f) system \<Rightarrow> 'r multiset" where
  "received s = sum_list (map result_of (outputs s))"

definition sends :: "'j call list \<Rightarrow> 'j multiset" where
  "sends calls = sum_list (map send_of calls)"

definition results_held :: "('j, 'r, 'd, 'f) system \<Rightarrow> 'r multiset" where
  "results_held s =
     sum_list (map response_of (responses s)) + sum_list (map reply_of (workers s)) + received s"

definition jobs_pending :: "('j, 'r, 'd, 'f) system \<Rightarrow> 'j multiset" where
  "jobs_pending s = sum_list (map request_of (requests s)) + sends (todo s)"

definition answers :: "('h, 'c, 'd, 'f, 'j, 'r) args \<Rightarrow> nat \<Rightarrow> 'j \<Rightarrow> 'r \<Rightarrow> bool" where
  "answers a n x r =
     (\<exists>i < n. \<exists>d. pre_fn a (loop_host a) i (context a) = Inr d \<and> callback a d x = Inr r)"

lemma upd_gain:
  fixes f :: "'a \<Rightarrow> 'b multiset"
  shows "i < length xs \<Longrightarrow> f (xs ! i) = {#} \<Longrightarrow>
    sum_list (map f (xs[i := y])) = sum_list (map f xs) + f y"
  by (induction xs arbitrary: i) (auto split: nat.splits)

lemma upd_loss:
  fixes f :: "'a \<Rightarrow> 'b multiset"
  shows "i < length xs \<Longrightarrow> f y = {#} \<Longrightarrow>
    sum_list (map f xs) = sum_list (map f (xs[i := y])) + f (xs ! i)"
  by (induction xs arbitrary: i) (auto split: nat.splits)

lemma sum_list_all_empty:
  fixes f :: "'a \<Rightarrow> 'b multiset"
  shows "(\<And>x. x \<in> set xs \<Longrightarrow> f x = {#}) \<Longrightarrow> sum_list (map f xs) = {#}"
  by (induction xs) auto

lemma moves_results:
  assumes "moves a s s'" and "derived a s"
  shows "(results_held s' \<subseteq># results_held s \<and> jobs_pending s' \<subseteq># jobs_pending s)
    \<or> (\<exists>x r. answers a (length (workers s)) x r
          \<and> results_held s' = add_mset r (results_held s)
          \<and> jobs_pending s = add_mset x (jobs_pending s'))"
  using assms
proof (induction rule: moves.induct)
  case (request_ok i d x reqs r s')
  have "answers a (length (workers s)) x r"
    using request_ok by (auto simp: answers_def derived_def dest!: spec [of _ i])
  then show ?case using request_ok
    by (auto simp: results_held_def jobs_pending_def received_def sends_def upd_gain)
next
  case (reply i d r s')
  have "sum_list (map reply_of (workers s))
      = sum_list (map reply_of ((workers s)[i := Waiting d])) + reply_of (workers s ! i)"
    using reply by (intro upd_loss) auto
  then show ?case using reply
    by (auto simp: results_held_def jobs_pending_def received_def sends_def)
next
  case (join_abnormal calls s')
  have "sum_list (map reply_of (map (\<lambda>w. Exited) (workers s))) = {#}"
    by (intro sum_list_all_empty) auto
  then have "sum_list (map reply_of (workers s')) = {#}"
    using join_abnormal by simp
  then show ?case using join_abnormal
    by (simp add: results_held_def jobs_pending_def received_def sends_def)
qed (auto simp: results_held_def jobs_pending_def received_def sends_def upd_gain
      sum_list_all_empty)

lemma run_invariant:
  assumes "\<And>s s'. P s \<Longrightarrow> moves a s s' \<Longrightarrow> P s'" and "P s"
  shows "P (run a evs s)"
  using assms(2)
proof (induction evs arbitrary: s)
  case Nil
  then show ?case by simp
next
  case (Cons e evs)
  show ?case
  proof (cases "step a e s")
    case None
    then show ?thesis using Cons by simp
  next
    case (Some s')
    then have "moves a s s'" by (rule step_moves)
    with Cons.prems have "P s'" by (rule assms(1))
    then have "P (run a evs s')" by (rule Cons.IH)
    then show ?thesis using Some by simp
  qed
qed

lemma rel_mset_sub:
  "rel_mset P J (R' + D) \<Longrightarrow> \<exists>J'. J' \<subseteq># J \<and> rel_mset P J' R'"
proof (induction D arbitrary: J)
  case empty
  then show ?case by auto
next
  case (add d D)
  then have "rel_mset P J (add_mset d (R' + D))" by simp
  then have "\<exists>J1 x. J = add_mset x J1 \<and> P x d \<and> rel_mset P J1 (R' + D)"
    by (rule msed_rel_invR)
  then obtain J1 x where J: "J = add_mset x J1" and r: "rel_mset P J1 (R' + D)"
    by auto
  from add.IH [OF r] obtain J' where J': "J' \<subseteq># J1" "rel_mset P J' R'" by blast
  have "J1 \<subseteq># add_mset x J1" by simp
  with J'(1) have "J' \<subseteq># add_mset x J1" by (rule subset_mset.order_trans)
  then show ?case using J J'(2) by blast
qed

definition matched ::
  "('h, 'c, 'd, 'f, 'j, 'r) args \<Rightarrow> 'j multiset \<Rightarrow> ('j, 'r, 'd, 'f) system \<Rightarrow> bool" where
  "matched a J0 s =
     (\<exists>J R. results_held s \<subseteq># R \<and> rel_mset (answers a (length (workers s))) J R
        \<and> J + jobs_pending s \<subseteq># J0)"

lemma matchedI:
  "results_held s \<subseteq># R \<Longrightarrow> rel_mset (answers a (length (workers s))) J R \<Longrightarrow>
   J + jobs_pending s \<subseteq># J0 \<Longrightarrow> matched a J0 s"
  unfolding matched_def by blast

lemma matched_moves:
  assumes "moves a s s'" and "derived a s" and "matched a J0 s"
  shows "matched a J0 s'"
proof -
  obtain J R where h: "results_held s \<subseteq># R" "rel_mset (answers a (length (workers s))) J R"
    "J + jobs_pending s \<subseteq># J0"
    using assms(3) unfolding matched_def by blast
  have len: "length (workers s') = length (workers s)" using assms(1) by (rule moves_length)
  from moves_results [OF assms(1,2)] show ?thesis
  proof
    assume "results_held s' \<subseteq># results_held s \<and> jobs_pending s' \<subseteq># jobs_pending s"
    then have a: "results_held s' \<subseteq># results_held s"
      and b: "jobs_pending s' \<subseteq># jobs_pending s" by simp_all
    have 1: "results_held s' \<subseteq># R"
      using a h(1) by (rule subset_mset.order_trans)
    have "J + jobs_pending s' \<subseteq># J + jobs_pending s"
      using b by simp
    then have 2: "J + jobs_pending s' \<subseteq># J0"
      using h(3) by (rule subset_mset.order_trans)
    have 3: "rel_mset (answers a (length (workers s'))) J R"
      using h(2) len by simp
    from 1 3 2 show ?thesis by (rule matchedI)
  next
    assume "\<exists>x r. answers a (length (workers s)) x r
          \<and> results_held s' = add_mset r (results_held s)
          \<and> jobs_pending s = add_mset x (jobs_pending s')"
    then obtain x r where xr: "answers a (length (workers s)) x r"
      "results_held s' = add_mset r (results_held s)"
      "jobs_pending s = add_mset x (jobs_pending s')" by blast
    have "rel_mset (answers a (length (workers s))) (add_mset x J) (add_mset r R)"
      using xr(1) h(2) by (rule rel_mset_Plus)
    then have 1: "rel_mset (answers a (length (workers s'))) (add_mset x J) (add_mset r R)"
      using len by simp
    have 2: "results_held s' \<subseteq># add_mset r R" using xr(2) h(1) by simp
    have 3: "add_mset x J + jobs_pending s' \<subseteq># J0" using xr(3) h(3) by simp
    from 2 1 3 show ?thesis by (rule matchedI)
  qed
qed

lemma ProcessPool_workers:
  "ProcessPool a = Inr p \<Longrightarrow> workers p = replicate (nat (jobs a)) Starting"
  by (auto simp: ProcessPool_def map_replicate_const split: if_splits)

lemma with_calls_simps [simp]:
  "requests (with_calls p calls) = requests p"
  "requests_closed (with_calls p calls) = requests_closed p"
  "responses (with_calls p calls) = responses p"
  "responses_closed (with_calls p calls) = responses_closed p"
  "workers (with_calls p calls) = workers p"
  "closed (with_calls p calls) = closed p"
  "erred (with_calls p calls) = erred p"
  "todo (with_calls p calls) = calls"
  "joining (with_calls p calls) = Entering"
  "outputs (with_calls p calls) = []"
  by (simp_all add: with_calls_def process_pool.defs system.defs)

lemma ProcessPool_fresh:
  assumes "ProcessPool a = Inr p"
  shows "requests p = []" "responses p = []" "\<not> requests_closed p" "\<not> responses_closed p"
    "\<not> closed p" "\<not> erred p" "length (workers p) = nat (jobs a)"
  using assms by (auto simp: ProcessPool_def split: if_splits)

lemma derived_start: "ProcessPool a = Inr p \<Longrightarrow> derived a (with_calls p calls)"
  by (simp add: derived_def ProcessPool_workers)

lemma no_reply_start:
  "ProcessPool a = Inr p \<Longrightarrow> sum_list (map reply_of (workers p)) = {#}"
  by (intro sum_list_all_empty) (auto simp: ProcessPool_workers)

lemma matched_start:
  assumes "ProcessPool a = Inr p"
  shows "matched a (sends calls) (with_calls p calls)"
proof (rule matchedI [where R = "{#}" and J = "{#}"])
  show "results_held (with_calls p calls) \<subseteq># {#}"
    using assms by (simp add: results_held_def received_def ProcessPool_fresh no_reply_start)
  show "rel_mset (answers a (length (workers (with_calls p calls)))) {#} {#}"
    by (rule rel_mset_Zero)
  show "{#} + jobs_pending (with_calls p calls) \<subseteq># sends calls"
    using assms by (simp add: jobs_pending_def ProcessPool_fresh)
qed

lemma run_matched:
  assumes "ProcessPool a = Inr p"
  shows "derived a (run a evs (with_calls p calls))
    \<and> matched a (sends calls) (run a evs (with_calls p calls))"
proof (rule run_invariant [where P = "\<lambda>s. derived a s \<and> matched a (sends calls) s"])
  fix s s'
  assume "derived a s \<and> matched a (sends calls) s" and m: "moves a s s'"
  then have d: "derived a s" and h: "matched a (sends calls) s" by simp_all
  have "derived a s'" using m d by (rule derived_moves)
  moreover have "matched a (sends calls) s'" using m d h by (rule matched_moves)
  ultimately show "derived a s' \<and> matched a (sends calls) s'" by simp
next
  show "derived a (with_calls p calls) \<and> matched a (sends calls) (with_calls p calls)"
    using assms by (simp add: derived_start matched_start)
qed

lemma run_length:
  "length (workers (run a evs s)) = length (workers s)"
  by (rule run_invariant [where P = "\<lambda>t. length (workers t) = length (workers s)"])
     (simp_all add: moves_length)

lemma received_matched:
  assumes "ProcessPool a = Inr p" and "s = run a evs (with_calls p calls)"
  shows "\<exists>J. J + sends (todo s) \<subseteq># sends calls
    \<and> rel_mset (answers a (nat (jobs a))) J (received s)"
proof -
  have len: "length (workers s) = nat (jobs a)"
    using assms by (simp add: run_length ProcessPool_fresh)
  have "matched a (sends calls) s" using run_matched [OF assms(1)] assms(2) by simp
  then obtain J R where h: "results_held s \<subseteq># R"
    "rel_mset (answers a (length (workers s))) J R"
    "J + jobs_pending s \<subseteq># sends calls"
    unfolding matched_def by blast
  have "received s \<subseteq># results_held s" by (simp add: results_held_def)
  then have "received s \<subseteq># R" using h(1) by (rule subset_mset.order_trans)
  then obtain D where "R = received s + D" unfolding mset_subset_eq_exists_conv by blast
  then have "rel_mset (answers a (nat (jobs a))) J (received s + D)"
    using h(2) len by simp
  then have "\<exists>J'. J' \<subseteq># J \<and> rel_mset (answers a (nat (jobs a))) J' (received s)"
    by (rule rel_mset_sub)
  then obtain J' where J': "J' \<subseteq># J" "rel_mset (answers a (nat (jobs a))) J' (received s)"
    by auto
  have "J' + sends (todo s) \<subseteq># J + sends (todo s)"
    using J'(1) by simp
  also have "\<dots> \<subseteq># J + jobs_pending s"
    by (simp add: jobs_pending_def)
  finally have "J' + sends (todo s) \<subseteq># J + jobs_pending s" .
  then have "J' + sends (todo s) \<subseteq># sends calls"
    using h(3) by (rule subset_mset.order_trans)
  then show ?thesis using J'(2) by auto
qed


section \<open>The in-process variant under a sequence of calls\<close>

text \<open>
  \<open>AsyncPool_calls\<close> makes the sends and gets of a caller in order and lists what each
  \<^verbatim>\<open>get\<close> returned or raised. \<open>supplied k calls\<close>: with \<open>k\<close> messages queued, no \<^verbatim>\<open>get\<close> of
  \<open>calls\<close> finds the list empty. \<open>sent calls\<close> are the messages of its sends, in order.
\<close>


fun AsyncPool_calls ::
  "('h, 'c, 'd, 'f, 'j, 'r) args \<Rightarrow> 'j call list \<Rightarrow> ('j, 'd, 'f) async_pool \<Rightarrow>
   (exn + 'r) list" where
  "AsyncPool_calls a [] p = []"
| "AsyncPool_calls a (CallSend msg # calls) p = AsyncPool_calls a calls (AsyncPool_send msg p)"
| "AsyncPool_calls a (CallGet block timeout # calls) p =
     (case AsyncPool_get a block timeout p of (r, p') \<Rightarrow> r # AsyncPool_calls a calls p')"
| "AsyncPool_calls a (c # calls) p = AsyncPool_calls a calls p"


fun sent :: "'j call list \<Rightarrow> 'j list" where
  "sent [] = []"
| "sent (CallSend msg # calls) = msg # sent calls"
| "sent (c # calls) = sent calls"



section \<open>Passthrough for both variants\<close>




text \<open>Evaluating concrete runs.\<close>

lemma upt_two: "[0..<2] = [0, 1]"
  by (simp add: upt_rec)

lemmas run_simps = upt_two adder_def indexer_def ProcessPool_def AsyncPool_def AsyncPool_get_def
  AsyncPool_send_def with_calls_def process_pool.defs system.defs ProcessPool_send_def
  ProcessPool_get_def ProcessPool_close_def loop_host_def handle_error_def


section \<open>The two variants with one worker\<close>

text \<open>
  Claim C4. With a setup that returns the worker index it is given and a callback that
  returns the derived context, a \<^verbatim>\<open>ProcessPool\<close> with \<^verbatim>\<open>jobs = 1\<close> answers a job with 0 (its
  only worker is started with \<^verbatim>\<open>worker_num = 0\<close>), while an \<^verbatim>\<open>AsyncPool\<close> with the same arguments
  answers it with 1 (it calls \<^verbatim>\<open>pre_fn(host, 1, context)\<close>).
\<close>

theorem worker_index_differs:
  "ProcessPool indexer
     = Inr \<lparr>requests = [], requests_closed = False, responses = [], responses_closed = False,
            workers = [Starting], closed = False, erred = False\<rparr>
   \<and> outputs (run indexer [Worker 0, Caller, Worker 0, Worker 0, Caller]
        (with_calls
           \<lparr>requests = [], requests_closed = False, responses = [], responses_closed = False,
            workers = [Starting], closed = False, erred = False\<rparr>
           [CallSend 7, CallGet True None]))
     = [Returned_None, Returned_resp 0]
   \<and> AsyncPool indexer
     = Inr \<lparr>msgs = [], async_closed = False, context_after_pre = 1, final_context = None\<rparr>
   \<and> AsyncPool_calls indexer [CallSend 7, CallGet True None]
        \<lparr>msgs = [], async_closed = False, context_after_pre = 1, final_context = None\<rparr>
     = [Inr 1]"
  by (simp add: run_simps)


section \<open>Final contexts gathered by \<^verbatim>\<open>join\<close>\<close>

text \<open>
  \<open>final a i\<close> is what the teardown of worker \<open>i\<close> yields: \<^verbatim>\<open>post_fn\<close> on the derived context
  of \<^verbatim>\<open>pre_fn(host, i, context)\<close>. \<open>finals_held s\<close> are the \<^verbatim>\<open>Done\<close> payloads queued or already
  appended to \<^verbatim>\<open>final_responses\<close>; \<open>emitted a 0 ws\<close> are the teardown results of the workers
  that have exited. \<open>pc_ok n\<close>: inside \<^verbatim>\<open>join\<close>, \<^verbatim>\<open>final_responses\<close> has one element for each
  worker of the \<^verbatim>\<open>for\<close> loop already passed. \<open>graceful calls\<close>: the caller only sends and gets,
  then calls \<^verbatim>\<open>close()\<close> and \<^verbatim>\<open>join()\<close>.
\<close>

definition final :: "('h, 'c, 'd, 'f, 'j, 'r) args \<Rightarrow> nat \<Rightarrow> exn + 'f" where
  "final a worker_num =
     (case pre_fn a (loop_host a) worker_num (context a) of
        Inl e \<Rightarrow> Inl e
      | Inr d \<Rightarrow> post_fn a d)"

fun fin :: "exn + 'f \<Rightarrow> 'f multiset" where
  "fin (Inr f) = {#f#}"
| "fin (Inl e) = {#}"

fun done_of :: "('j, 'r, 'f) message \<Rightarrow> 'f multiset" where
  "done_of (Done f) = {#f#}"
| "done_of m = {#}"

fun gathered :: "'f joining \<Rightarrow> 'f list" where
  "gathered Entering = []"
| "gathered (Draining k acc) = acc"
| "gathered (Reaping k acc) = acc"

definition finals_held :: "('j, 'r, 'd, 'f) system \<Rightarrow> 'f multiset" where
  "finals_held s = sum_list (map done_of (responses s)) + mset (gathered (joining s))"

fun exit_of :: "('h, 'c, 'd, 'f, 'j, 'r) args \<Rightarrow> nat \<Rightarrow> ('d, 'r) process \<Rightarrow> 'f multiset" where
  "exit_of a i Exited = fin (final a i)"
| "exit_of a i w = {#}"

fun emitted ::
  "('h, 'c, 'd, 'f, 'j, 'r) args \<Rightarrow> nat \<Rightarrow> ('d, 'r) process list \<Rightarrow> 'f multiset" where
  "emitted a k [] = {#}"
| "emitted a k (w # ws) = exit_of a k w + emitted a (Suc k) ws"

fun pc_ok :: "nat \<Rightarrow> 'f joining \<Rightarrow> bool" where
  "pc_ok n Entering = True"
| "pc_ok n (Draining k acc) = (length acc = k \<and> k \<le> n)"
| "pc_ok n (Reaping k acc) = (length acc = Suc k \<and> k < n)"

fun graceful :: "'j call list \<Rightarrow> bool" where
  "graceful [] = False"
| "graceful (c # calls) =
     (case c of
        CallSend x \<Rightarrow> graceful calls
      | CallGet block timeout \<Rightarrow> graceful calls
      | CallClose \<Rightarrow> calls = [CallJoin]
      | CallJoin \<Rightarrow> False)"

definition good :: "('h, 'c, 'd, 'f, 'j, 'r) args \<Rightarrow> 'f list \<Rightarrow> bool" where
  "good a xs =
     (length xs = nat (jobs a) \<and> mset (map Inr xs) = mset (map (final a) [0..<nat (jobs a)]))"

definition script :: "('h, 'c, 'd, 'f, 'j, 'r) args \<Rightarrow> ('j, 'r, 'd, 'f) system \<Rightarrow> bool" where
  "script a s =
     (((graceful (todo s) \<and> \<not> requests_closed s \<and> \<not> closed s \<and> \<not> responses_closed s
          \<and> joining s = Entering)
       \<or> (todo s = [CallJoin] \<and> closed s \<and> requests_closed s \<and> \<not> responses_closed s)
       \<or> todo s = [])
      \<and> (\<forall>xs. Returned_finals xs \<in> set (outputs s) \<longrightarrow> good a xs))"

definition sound :: "('h, 'c, 'd, 'f, 'j, 'r) args \<Rightarrow> ('j, 'r, 'd, 'f) system \<Rightarrow> bool" where
  "sound a s =
     (derived a s \<and> length (workers s) = nat (jobs a)
      \<and> finals_held s \<subseteq># emitted a 0 (workers s)
      \<and> pc_ok (length (workers s)) (joining s))"

lemma emitted_upd:
  "i < length ws \<Longrightarrow> exit_of a (k + i) (ws ! i) = {#} \<Longrightarrow>
   emitted a k (ws[i := w]) = emitted a k ws + exit_of a (k + i) w"
proof (induction ws arbitrary: i k)
  case Nil
  then show ?case by simp
next
  case (Cons v ws)
  show ?case
  proof (cases i)
    case 0
    then show ?thesis using Cons.prems by simp
  next
    case (Suc j)
    then have "emitted a (Suc k) (ws[j := w]) = emitted a (Suc k) ws + exit_of a (Suc k + j) w"
      using Cons.prems by (intro Cons.IH) simp_all
    then show ?thesis using Suc by simp
  qed
qed

lemma emitted_upd0:
  "i < length ws \<Longrightarrow> ws ! i \<noteq> Exited \<Longrightarrow>
   emitted a 0 (ws[i := w]) = emitted a 0 ws + exit_of a i w"
  using emitted_upd [of i ws a 0 w] by (cases "ws ! i") simp_all

lemma emitted_all_exit:
  "emitted a k ws \<subseteq># emitted a k (map (\<lambda>w. Exited) ws)"
proof (induction ws arbitrary: k)
  case Nil
  then show ?case by simp
next
  case (Cons w ws)
  have "exit_of a k w \<subseteq># fin (final a k)" by (cases w) simp_all
  then show ?case using Cons.IH [of "Suc k"] by (simp add: subset_mset.add_mono)
qed

lemma emitted_bound:
  "emitted a k ws \<subseteq># sum_list (map (\<lambda>i. fin (final a i)) [k..<k + length ws])"
proof (induction ws arbitrary: k)
  case Nil
  then show ?case by simp
next
  case (Cons w ws)
  have 1: "exit_of a k w \<subseteq># fin (final a k)" by (cases w) simp_all
  have 2: "[k..<k + length (w # ws)] = k # [Suc k..<Suc k + length ws]"
    by (simp add: upt_rec)
  show ?case unfolding 2 using 1 Cons.IH [of "Suc k"] by (simp add: subset_mset.add_mono)
qed

lemma fin_size: "size (fin x) \<le> 1"
  by (cases x) simp_all

lemma fins_size: "size (sum_list (map (\<lambda>i. fin (g i)) js)) \<le> length js"
proof (induction js)
  case Nil
  then show ?case by simp
next
  case (Cons j js)
  have "size (fin (g j)) \<le> 1" by (rule fin_size)
  then show ?case using Cons by simp
qed

lemma fins_full:
  "size (sum_list (map (\<lambda>i. fin (g i)) js)) = length js \<Longrightarrow>
   image_mset Inr (sum_list (map (\<lambda>i. fin (g i)) js)) = mset (map g js)"
proof (induction js)
  case Nil
  then show ?case by simp
next
  case (Cons j js)
  have 1: "size (fin (g j)) \<le> 1" by (rule fin_size)
  have 2: "size (sum_list (map (\<lambda>i. fin (g i)) js)) \<le> length js" by (rule fins_size)
  have 3: "size (fin (g j)) + size (sum_list (map (\<lambda>i. fin (g i)) js)) = Suc (length js)"
    using Cons.prems by simp
  have 4: "size (fin (g j)) = 1" using 1 2 3 by arith
  have 5: "size (sum_list (map (\<lambda>i. fin (g i)) js)) = length js" using 1 2 3 by arith
  have 6: "image_mset Inr (fin (g j)) = {#g j#}" using 4 by (cases "g j") simp_all
  show ?case using Cons.IH [OF 5] 6 by simp
qed

lemma sub_size_eq:
  assumes "A \<subseteq># B" and "size B = size A"
  shows "A = B"
proof (rule ccontr)
  assume "A \<noteq> B"
  with assms(1) have "A \<subset># B" by (rule subset_mset.le_neq_trans)
  then have "size A < size B" by (rule mset_subset_size)
  then show False using assms(2) by simp
qed

lemma gathered_good:
  assumes "mset acc \<subseteq># emitted a 0 ws" and "length ws = nat (jobs a)"
    and "length acc = length ws"
  shows "good a acc"
proof -
  let ?M = "sum_list (map (\<lambda>i. fin (final a i)) [0..<nat (jobs a)])"
  have "emitted a 0 ws \<subseteq># ?M" using emitted_bound [of a 0 ws] assms(2) by simp
  with assms(1) have sub: "mset acc \<subseteq># ?M" by (rule subset_mset.order_trans)
  have "size ?M \<le> length [0..<nat (jobs a)]" by (rule fins_size)
  then have le: "size ?M \<le> nat (jobs a)" by simp
  have "size (mset acc) \<le> size ?M" using sub by (rule size_mset_mono)
  then have sz: "size ?M = size (mset acc)" using le assms(2,3) by simp
  have eq: "mset acc = ?M" using sub sz by (rule sub_size_eq)
  have "size ?M = length [0..<nat (jobs a)]" using sz assms(2,3) by simp
  then have "image_mset Inr ?M = mset (map (final a) [0..<nat (jobs a)])" by (rule fins_full)
  then show ?thesis using eq assms(2,3) by (simp add: good_def)
qed

lemma pc_ok_moves:
  "moves a s s' \<Longrightarrow> pc_ok (length (workers s)) (joining s) \<Longrightarrow>
   pc_ok (length (workers s')) (joining s')"
  by (induction rule: moves.induct) auto

lemma held_moves:
  assumes "moves a s s'" and "derived a s"
    and "finals_held s \<subseteq># emitted a 0 (workers s)"
  shows "finals_held s' \<subseteq># emitted a 0 (workers s')"
  using assms
proof (induction rule: moves.induct)
  case (join_abnormal calls s')
  have "emitted a 0 (workers s) \<subseteq># emitted a 0 (map (\<lambda>w. Exited) (workers s))"
    by (rule emitted_all_exit)
  with join_abnormal(6) have "finals_held s \<subseteq># emitted a 0 (map (\<lambda>w. Exited) (workers s))"
    by (rule subset_mset.order_trans)
  then show ?case using join_abnormal by (simp add: finals_held_def)
next
  case (teardown_ok i d f s')
  have "pre_fn a (loop_host a) i (context a) = Inr d"
    using teardown_ok by (auto simp: derived_def dest!: spec [of _ i])
  then have "final a i = Inr f" using teardown_ok by (simp add: final_def)
  then have "emitted a 0 ((workers s)[i := Exited]) = emitted a 0 (workers s) + {#f#}"
    using teardown_ok by (simp add: emitted_upd0)
  then show ?case using teardown_ok by (simp add: finals_held_def)
next
  case (teardown_fail i d e s')
  have "emitted a 0 ((workers s)[i := Exited]) = emitted a 0 (workers s) + exit_of a i Exited"
    using teardown_fail by (simp add: emitted_upd0)
  then have "emitted a 0 (workers s) \<subseteq># emitted a 0 (workers s')"
    using teardown_fail by simp
  with teardown_fail(6) have "finals_held s \<subseteq># emitted a 0 (workers s')"
    by (rule subset_mset.order_trans)
  then show ?case using teardown_fail by (simp add: finals_held_def)
next
  case (report i e s')
  have "emitted a 0 ((workers s)[i := Exited]) = emitted a 0 (workers s) + exit_of a i Exited"
    using report by (simp add: emitted_upd0)
  then have "emitted a 0 (workers s) \<subseteq># emitted a 0 (workers s')"
    using report by simp
  with report(5) have "finals_held s \<subseteq># emitted a 0 (workers s')"
    by (rule subset_mset.order_trans)
  then show ?case using report by (simp add: finals_held_def)
next
  case (get_error b t calls i m rest s')
  have "finals_held s' \<subseteq># finals_held s" using get_error by (simp add: finals_held_def)
  then show ?case using get_error(6) get_error(4)
    by (simp add: subset_mset.order_trans)
next
  case (get_resp b t calls r rest s')
  have "finals_held s' \<subseteq># finals_held s" using get_resp by (simp add: finals_held_def)
  then show ?case using get_resp(6) get_resp(4)
    by (simp add: subset_mset.order_trans)
next
  case (get_other b t calls m rest s')
  have "finals_held s' \<subseteq># finals_held s" using get_other by (simp add: finals_held_def)
  then show ?case using get_other
    by (simp add: subset_mset.order_trans)
next
  case (join_error calls k acc i m rest s')
  have "finals_held s' \<subseteq># finals_held s" using join_error by (simp add: finals_held_def)
  then show ?case using join_error
    by (simp add: subset_mset.order_trans)
next
  case (join_discard calls k acc m rest s')
  have "finals_held s' \<subseteq># finals_held s" using join_discard by (simp add: finals_held_def)
  then show ?case using join_discard
    by (simp add: subset_mset.order_trans)
next
  case (join_finish calls k acc s')
  have "finals_held s' \<subseteq># finals_held s" using join_finish by (simp add: finals_held_def)
  then show ?case using join_finish
    by (simp add: subset_mset.order_trans)
next
  case (join_closed calls k acc s')
  have "finals_held s' \<subseteq># finals_held s" using join_closed by (simp add: finals_held_def)
  then show ?case using join_closed
    by (simp add: subset_mset.order_trans)
qed (simp_all add: finals_held_def emitted_upd0)


lemma sound_moves:
  assumes "moves a s s'" and "sound a s"
  shows "sound a s'"
proof -
  have d: "derived a s" and l: "length (workers s) = nat (jobs a)"
    and h: "finals_held s \<subseteq># emitted a 0 (workers s)"
    and p: "pc_ok (length (workers s)) (joining s)"
    using assms(2) by (auto simp: sound_def)
  have "derived a s'" using assms(1) d by (rule derived_moves)
  moreover have "length (workers s') = nat (jobs a)" using moves_length [OF assms(1)] l by simp
  moreover have "finals_held s' \<subseteq># emitted a 0 (workers s')" using assms(1) d h by (rule held_moves)
  moreover have "pc_ok (length (workers s')) (joining s')" using assms(1) p by (rule pc_ok_moves)
  ultimately show ?thesis by (simp add: sound_def)
qed

lemma script_moves:
  assumes "moves a s s'" and "sound a s" and "script a s"
  shows "script a s'"
  using assms
proof (induction rule: moves.induct)
  case (join_finish calls k acc s')
  have "mset acc \<subseteq># finals_held s" using join_finish by (simp add: finals_held_def)
  moreover have "finals_held s \<subseteq># emitted a 0 (workers s)"
    using join_finish by (simp add: sound_def)
  ultimately have 1: "mset acc \<subseteq># emitted a 0 (workers s)" by (rule subset_mset.order_trans)
  have 2: "length (workers s) = nat (jobs a)" using join_finish by (simp add: sound_def)
  have 3: "length acc = length (workers s)" using join_finish by (simp add: sound_def)
  have "good a acc" using 1 2 3 by (rule gathered_good)
  then show ?case using join_finish by (auto simp: script_def)
qed (auto simp: script_def split: call.splits)

lemma sound_start: "ProcessPool a = Inr p \<Longrightarrow> sound a (with_calls p calls)"
  by (simp add: sound_def derived_start ProcessPool_fresh finals_held_def ProcessPool_workers)

lemma emitted_start: "emitted a k (replicate n Starting) = {#}"
  by (induction n arbitrary: k) simp_all

lemma script_start:
  "ProcessPool a = Inr p \<Longrightarrow> graceful calls \<Longrightarrow> script a (with_calls p calls)"
  by (simp add: script_def ProcessPool_fresh)








section \<open>Runs in which no worker fails\<close>

text \<open>
  \<open>reliable a xs\<close>: for each of the \<^verbatim>\<open>jobs\<close> workers the setup returns, the callback returns
  on every job of \<open>xs\<close> with that worker's derived context, and the teardown returns.
  \<open>calm xs s\<close>: no worker is in the exception handler, the queues hold only what the
  dispatcher and sound workers put there, and before \<^verbatim>\<open>close\<close> no worker has left its loop.
  \<open>fits c out\<close>: the call \<open>c\<close> ended normally with \<open>out\<close> (a \<^verbatim>\<open>get\<close> that does not block may
  raise \<^verbatim>\<open>Empty\<close>); \<open>fitting calls s\<close>: every call made so far did.
\<close>

definition reliable :: "('h, 'c, 'd, 'f, 'j, 'r) args \<Rightarrow> 'j list \<Rightarrow> bool" where
  "reliable a xs =
     list_all (\<lambda>i. case pre_fn a (loop_host a) i (context a) of
                      Inl e \<Rightarrow> False
                    | Inr d \<Rightarrow> list_all (\<lambda>x. \<not> isl (callback a d x)) xs \<and> \<not> isl (post_fn a d))
       [0..<nat (jobs a)]"

fun calm_worker :: "bool \<Rightarrow> ('d, 'r) process \<Rightarrow> bool" where
  "calm_worker c (Failing e) = False"
| "calm_worker c (Closing d) = c"
| "calm_worker c Exited = c"
| "calm_worker c w = True"

fun calm_request :: "bool \<Rightarrow> 'j list \<Rightarrow> ('j, 'r, 'f) message \<Rightarrow> bool" where
  "calm_request c xs (Request x) = (x \<in> set xs)"
| "calm_request c xs Close = c"
| "calm_request c xs m = False"

fun calm_response :: "bool \<Rightarrow> ('j, 'r, 'f) message \<Rightarrow> bool" where
  "calm_response c (Response r) = True"
| "calm_response c (Done f) = c"
| "calm_response c m = False"

definition calm :: "'j list \<Rightarrow> ('j, 'r, 'd, 'f) system \<Rightarrow> bool" where
  "calm xs s =
     ((\<forall>i < length (workers s). calm_worker (closed s) (workers s ! i))
      \<and> (\<forall>m \<in> set (requests s). calm_request (closed s) xs m)
      \<and> (\<forall>m \<in> set (responses s). calm_response (closed s) m)
      \<and> set (sent (todo s)) \<subseteq> set xs)"

fun fits :: "'j call \<Rightarrow> ('r, 'f) outcome \<Rightarrow> bool" where
  "fits (CallSend x) Returned_None = True"
| "fits (CallGet block timeout) (Returned_resp r) = True"
| "fits (CallGet block timeout) (Raised e) = (e = Empty \<and> \<not> (block \<and> timeout = None))"
| "fits CallClose Returned_None = True"
| "fits CallJoin (Returned_finals xs) = True"
| "fits c out = False"

definition fitting :: "'j call list \<Rightarrow> ('j, 'r, 'd, 'f) system \<Rightarrow> bool" where
  "fitting calls s = (\<exists>past. calls = past @ todo s \<and> list_all2 fits past (outputs s))"

lemma reliableD:
  assumes "reliable a xs" and "i < nat (jobs a)"
  shows "\<exists>d. pre_fn a (loop_host a) i (context a) = Inr d
    \<and> (\<forall>x \<in> set xs. \<exists>r. callback a d x = Inr r) \<and> (\<exists>f. post_fn a d = Inr f)"
proof -
  have 1: "case pre_fn a (loop_host a) i (context a) of
          Inl e \<Rightarrow> False
        | Inr d \<Rightarrow> list_all (\<lambda>x. \<not> isl (callback a d x)) xs \<and> \<not> isl (post_fn a d)"
    using assms by (simp add: reliable_def list_all_iff)
  then obtain d where d: "pre_fn a (loop_host a) i (context a) = Inr d"
    by (cases "pre_fn a (loop_host a) i (context a)") simp_all
  have 2: "\<forall>x \<in> set xs. \<not> isl (callback a d x)" and 3: "\<not> isl (post_fn a d)"
    using 1 d by (simp_all add: list_all_iff)
  have "\<forall>x \<in> set xs. \<exists>r. callback a d x = Inr r"
  proof
    fix x assume "x \<in> set xs"
    then have "\<not> isl (callback a d x)" using 2 by simp
    then show "\<exists>r. callback a d x = Inr r" by (cases "callback a d x") simp_all
  qed
  moreover have "\<exists>f. post_fn a d = Inr f" using 3 by (cases "post_fn a d") simp_all
  ultimately show ?thesis using d by simp
qed

lemma calm_worker_mono: "calm_worker c w \<Longrightarrow> calm_worker True w"
  by (cases w) simp_all

lemma calm_request_mono: "calm_request c xs m \<Longrightarrow> calm_request True xs m"
  by (cases m) simp_all

lemma calm_response_mono: "calm_response c m \<Longrightarrow> calm_response True m"
  by (cases m) simp_all

lemma sent_tl: "todo s = c # calls \<Longrightarrow> set (sent calls) \<subseteq> set (sent (todo s))"
  by (cases c) auto

lemma calm_moves:
  assumes "moves a s s'" and "reliable a xs" and "sound a s" and "script a s" and "calm xs s"
  shows "calm xs s'"
  using assms
proof (induction rule: moves.induct)
  case (send_ok x calls s')
  then show ?case by (auto simp: calm_def)
next
  case (send_closed x calls s')
  then show ?case by (auto simp: calm_def)
next
  case (get_closed b t calls s')
  then show ?case by (auto simp: calm_def)
next
  case (get_empty b t calls s')
  then show ?case by (auto simp: calm_def)
next
  case (get_error b t calls i m rest s')
  then show ?case by (auto simp: calm_def)
next
  case (get_resp b t calls r rest s')
  then show ?case by (auto simp: calm_def)
next
  case (get_other b t calls m rest s')
  then show ?case by (auto simp: calm_def)
next
  case (close_closed calls s')
  then show ?case by (auto simp: calm_def)
next
  case (close_ok calls s')
  then show ?case
    by (auto simp: calm_def intro: calm_worker_mono calm_request_mono calm_response_mono)
next
  case (join_abnormal calls s')
  then show ?case by (auto simp: script_def)
next
  case (join_enter calls s')
  then show ?case by (auto simp: calm_def)
next
  case (join_finish calls k acc s')
  then show ?case by (auto simp: calm_def)
next
  case (join_closed calls k acc s')
  then show ?case by (auto simp: calm_def)
next
  case (join_error calls k acc i m rest s')
  then show ?case by (auto simp: calm_def)
next
  case (join_done calls k acc f rest s')
  then show ?case by (auto simp: calm_def)
next
  case (join_discard calls k acc m rest s')
  then show ?case by (auto simp: calm_def)
next
  case (join_reap calls k acc s')
  then show ?case by (auto simp: calm_def)
next
  case (setup_ok i d s')
  then show ?case by (auto simp: calm_def nth_list_update)
next
  case (setup_fail i e s')
  have "i < nat (jobs a)" using setup_fail by (simp add: sound_def)
  with setup_fail(5) have "\<exists>d. pre_fn a (loop_host a) i (context a) = Inr d
    \<and> (\<forall>x \<in> set xs. \<exists>r. callback a d x = Inr r) \<and> (\<exists>f. post_fn a d = Inr f)"
    by (rule reliableD)
  then show ?case using setup_fail by auto
next
  case (take_close i d reqs s')
  then show ?case by (auto simp: calm_def nth_list_update)
next
  case (request_ok i d x reqs r s')
  then show ?case by (auto simp: calm_def nth_list_update)
next
  case (request_fail i d x reqs e s')
  have "i < nat (jobs a)" using request_fail by (simp add: sound_def)
  with request_fail(6) have "\<exists>d. pre_fn a (loop_host a) i (context a) = Inr d
    \<and> (\<forall>x \<in> set xs. \<exists>r. callback a d x = Inr r) \<and> (\<exists>f. post_fn a d = Inr f)"
    by (rule reliableD)
  moreover have "pre_fn a (loop_host a) i (context a) = Inr d"
    using request_fail by (auto simp: sound_def derived_def dest!: spec [of _ i])
  moreover have "x \<in> set xs" using request_fail by (auto simp: calm_def)
  ultimately show ?case using request_fail by auto
next
  case (assert_fail i d m reqs s')
  have "calm_request (closed s) xs m" using assert_fail by (auto simp: calm_def)
  then show ?case using assert_fail by (cases m) auto
next
  case (reply i d r s')
  then show ?case by (auto simp: calm_def nth_list_update)
next
  case (report i e s')
  have "calm_worker (closed s) (workers s ! i)" using report by (auto simp: calm_def)
  then show ?case using report by simp
next
  case (teardown_ok i d f s')
  have "calm_worker (closed s) (workers s ! i)" using teardown_ok by (auto simp: calm_def)
  then have "closed s" using teardown_ok by simp
  then show ?case using teardown_ok by (auto simp: calm_def nth_list_update)
next
  case (teardown_fail i d e s')
  have "i < nat (jobs a)" using teardown_fail by (simp add: sound_def)
  with teardown_fail(5) have "\<exists>d. pre_fn a (loop_host a) i (context a) = Inr d
    \<and> (\<forall>x \<in> set xs. \<exists>r. callback a d x = Inr r) \<and> (\<exists>f. post_fn a d = Inr f)"
    by (rule reliableD)
  moreover have "pre_fn a (loop_host a) i (context a) = Inr d"
    using teardown_fail by (auto simp: sound_def derived_def dest!: spec [of _ i])
  ultimately show ?case using teardown_fail by auto
qed

text \<open>
  The calls of the scenario of the specification: submit the jobs 1, 2, 3, 4, drain four
  responses, then \<^verbatim>\<open>close(); join()\<close>.
\<close>

definition scenario :: "int call list" where
  "scenario = [CallSend 1, CallSend 2, CallSend 3, CallSend 4,
               CallGet True None, CallGet True None, CallGet True None, CallGet True None,
               CallClose, CallJoin]"

lemma fitting_finish:
  assumes "fitting calls s" and "todo s = c # rest" and "todo s' = rest"
    and "outputs s' = outputs s @ [out]" and "fits c out"
  shows "fitting calls s'"
proof -
  obtain past where p: "calls = past @ todo s" "list_all2 fits past (outputs s)"
    using assms(1) unfolding fitting_def by blast
  have 1: "calls = (past @ [c]) @ todo s'" using p(1) assms(2,3) by simp
  have "list_all2 fits [c] [out]" using assms(5) by simp
  with p(2) have "list_all2 fits (past @ [c]) (outputs s @ [out])" by (rule list_all2_appendI)
  then have 2: "list_all2 fits (past @ [c]) (outputs s')" using assms(4) by simp
  show ?thesis unfolding fitting_def using 1 2 by blast
qed

lemma fitting_same:
  "fitting calls s \<Longrightarrow> todo s' = todo s \<Longrightarrow> outputs s' = outputs s \<Longrightarrow> fitting calls s'"
  by (simp add: fitting_def)

lemma fitting_moves:
  assumes "moves a s s'" and "script a s" and "calm xs s" and "fitting calls s"
  shows "fitting calls s'"
  using assms
proof (induction rule: moves.induct)
  case (send_ok x calls' s')
  show ?case using send_ok(6,1)
    by (rule fitting_finish [where out = Returned_None]) (simp_all add: send_ok)
next
  case (send_closed x calls' s')
  then show ?case by (auto simp: script_def)
next
  case (get_closed b t calls' s')
  then show ?case by (auto simp: script_def)
next
  case (get_empty b t calls' s')
  show ?case using get_empty(8,1)
    by (rule fitting_finish [where out = "Raised Empty"]) (use get_empty in simp_all)
next
  case (get_error b t calls' i m rest s')
  then show ?case by (auto simp: calm_def)
next
  case (get_resp b t calls' r rest s')
  show ?case using get_resp(7,1)
    by (rule fitting_finish [where out = "Returned_resp r"]) (simp_all add: get_resp)
next
  case (get_other b t calls' m rest s')
  have 1: "calm_response (closed s) m" using get_other by (auto simp: calm_def)
  have 2: "\<not> closed s" using get_other by (auto simp: script_def)
  show ?case using 1 2 get_other(4,5) by (cases m) simp_all
next
  case (close_closed calls' s')
  then show ?case by (auto simp: script_def)
next
  case (close_ok calls' s')
  show ?case using close_ok(6,1)
    by (rule fitting_finish [where out = Returned_None]) (simp_all add: close_ok)
next
  case (join_abnormal calls' s')
  then show ?case by (auto simp: script_def)
next
  case (join_finish calls' k acc s')
  show ?case using join_finish(7,1)
    by (rule fitting_finish [where out = "Returned_finals acc"]) (simp_all add: join_finish)
next
  case (join_closed calls' k acc s')
  then show ?case by (auto simp: script_def)
next
  case (join_error calls' k acc i m rest s')
  then show ?case by (auto simp: calm_def)
qed (auto intro: fitting_same)

lemma calm_start:
  "ProcessPool a = Inr p \<Longrightarrow> calm (sent calls) (with_calls p calls)"
  by (simp add: calm_def ProcessPool_fresh ProcessPool_workers)

lemma fitting_start: "fitting calls (with_calls p calls)"
  by (simp add: fitting_def)

definition steady ::
  "('h, 'c, 'd, 'f, 'j, 'r) args \<Rightarrow> 'j call list \<Rightarrow> ('j, 'r, 'd, 'f) system \<Rightarrow> bool" where
  "steady a calls s =
     (sound a s \<and> script a s \<and> calm (sent calls) s \<and> fitting calls s
      \<and> matched a (sends calls) s)"

lemma steady_moves:
  assumes "reliable a (sent calls)" and "steady a calls s" and "moves a s s'"
  shows "steady a calls s'"
proof -
  have 1: "sound a s" and 2: "script a s" and 3: "calm (sent calls) s"
    and 4: "fitting calls s" and 5: "matched a (sends calls) s"
    using assms(2) by (auto simp: steady_def)
  have d: "derived a s" using 1 by (simp add: sound_def)
  have "sound a s'" using assms(3) 1 by (rule sound_moves)
  moreover have "script a s'" using assms(3) 1 2 by (rule script_moves)
  moreover have "calm (sent calls) s'" using assms(3,1) 1 2 3 by (rule calm_moves)
  moreover have "fitting calls s'" using assms(3) 2 3 4 by (rule fitting_moves)
  moreover have "matched a (sends calls) s'" using assms(3) d 5 by (rule matched_moves)
  ultimately show ?thesis by (simp add: steady_def)
qed

lemma steady_start:
  "ProcessPool a = Inr p \<Longrightarrow> graceful calls \<Longrightarrow> steady a calls (with_calls p calls)"
  by (simp add: steady_def sound_start script_start calm_start fitting_start matched_start)

lemma run_steady:
  assumes "reliable a (sent calls)" and "steady a calls s"
  shows "steady a calls (run a evs s)"
  using steady_moves [OF assms(1)] assms(2) by (rule run_invariant)

lemma fits_send: "fits (CallSend x) out = (out = Returned_None)"
  by (cases out) simp_all

lemma fits_get: "fits (CallGet True None) out = (\<exists>r. out = Returned_resp r)"
  by (cases out) simp_all

lemma fits_close: "fits CallClose out = (out = Returned_None)"
  by (cases out) simp_all

lemma fits_join: "fits CallJoin out = (\<exists>xs. out = Returned_finals xs)"
  by (cases out) simp_all

lemma scenario_outputs:
  "list_all2 fits scenario outs \<Longrightarrow>
   \<exists>r1 r2 r3 r4 xs. outs = [Returned_None, Returned_None, Returned_None, Returned_None,
      Returned_resp r1, Returned_resp r2, Returned_resp r3, Returned_resp r4,
      Returned_None, Returned_finals xs]"
  by (auto simp: scenario_def list_all2_Cons1 fits_send fits_get fits_close fits_join)

lemma answers_adder: "answers adder 2 = (\<lambda>x r. r = x + 1)"
  by (auto simp: answers_def adder_def fun_eq_iff less_Suc_eq numeral_2_eq_2)

lemma rel_mset_fun: "rel_mset (\<lambda>x r. r = f x) J R \<Longrightarrow> R = image_mset f J"
proof -
  assume "rel_mset (\<lambda>x r. r = f x) J R"
  then have "rel_mset (\<lambda>x r. f x = r) J R" by (simp add: eq_commute)
  then have "rel_mset (=) (image_mset f J) R" by (simp add: multiset.rel_map)
  then show ?thesis by (simp add: multiset.rel_eq)
qed


lemma reliable_adder: "reliable adder (sent scenario)"
  by (simp add: reliable_def adder_def scenario_def upt_two loop_host_def)

lemma graceful_scenario: "graceful scenario"
  by (simp add: scenario_def)

lemma sends_scenario: "sends scenario = {#1, 2, 3, 4#}"
  by (simp add: sends_def scenario_def)

lemma sends_Nil: "sends [] = {#}"
  by (simp add: sends_def)

lemma good_adder:
  assumes "good adder xs"
  shows "xs = [1, 1]"
proof -
  have l: "length xs = 2" using assms by (simp add: good_def adder_def)
  have "mset (map Inr xs) = mset (map (final adder) [0..<2])"
    using assms by (simp add: good_def adder_def)
  then have "mset (map Inr xs) = {#Inr 1 :: exn + int, Inr 1#}"
    by (simp add: upt_two final_def adder_def loop_host_def)
  then have "set_mset (mset (map Inr xs)) = set_mset {#Inr 1 :: exn + int, Inr 1#}" by simp
  then have "Inr ` set xs = {Inr 1 :: exn + int}" by simp
  then have 1: "\<forall>x \<in> set xs. x = 1" by auto
  obtain x y where "xs = [x, y]" using l
    by (cases xs; cases "tl xs"; cases "tl (tl xs)") auto
  then show ?thesis using 1 by simp
qed

section \<open>The scenario of the specification\<close>

text \<open>
  Claim C5, as amended. With two workers, initial context 0, setup adding 1, the callback
  adding the job to the derived context and the identity as teardown: under every
  schedule, once the caller has submitted the jobs 1, 2, 3, 4, drained four responses and
  called \<^verbatim>\<open>close(); join()\<close>, no call has raised, the four responses are 2, 3, 4, 5 in some
  order, and \<^verbatim>\<open>join\<close> has returned \<^verbatim>\<open>[1, 1]\<close>.
\<close>

theorem adder_scenario:
  "ProcessPool adder = Inr p \<and> todo (run adder evs (with_calls p scenario)) = [] \<longrightarrow>
   (\<exists>rs. outputs (run adder evs (with_calls p scenario))
            = [Returned_None, Returned_None, Returned_None, Returned_None]
              @ map Returned_resp rs @ [Returned_None, Returned_finals [1, 1]]
          \<and> mset rs = {#2, 3, 4, 5#})"
proof (intro impI)
  let ?s = "run adder evs (with_calls p scenario)"
  assume h: "ProcessPool adder = Inr p \<and> todo ?s = []"
  then have p: "ProcessPool adder = Inr p" and t: "todo ?s = []" by simp_all
  have "steady adder scenario (with_calls p scenario)"
    using p graceful_scenario by (rule steady_start)
  with reliable_adder have st: "steady adder scenario ?s" by (rule run_steady)
  then have "fitting scenario ?s" by (simp add: steady_def)
  then have "list_all2 fits scenario (outputs ?s)" using t by (simp add: fitting_def)
  then have "\<exists>r1 r2 r3 r4 xs. outputs ?s
      = [Returned_None, Returned_None, Returned_None, Returned_None,
         Returned_resp r1, Returned_resp r2, Returned_resp r3, Returned_resp r4,
         Returned_None, Returned_finals xs]"
    by (rule scenario_outputs)
  then obtain r1 r2 r3 r4 xs where o: "outputs ?s
      = [Returned_None, Returned_None, Returned_None, Returned_None,
         Returned_resp r1, Returned_resp r2, Returned_resp r3, Returned_resp r4,
         Returned_None, Returned_finals xs]"
    by blast
  have "script adder ?s" using st by (simp add: steady_def)
  then have "good adder xs" using o by (simp add: script_def)
  then have xs: "xs = [1, 1]" by (rule good_adder)
  have R: "received ?s = {#r1, r2, r3, r4#}" using o by (simp add: received_def)
  have "\<exists>J. J + sends (todo ?s) \<subseteq># sends scenario
      \<and> rel_mset (answers adder (nat (jobs adder))) J (received ?s)"
    using p refl by (rule received_matched)
  then obtain J where J0: "J + sends (todo ?s) \<subseteq># sends scenario"
    and rel: "rel_mset (answers adder (nat (jobs adder))) J (received ?s)"
    by blast
  have J: "J \<subseteq># {#1, 2, 3, 4#}" using J0 t by (simp add: sends_scenario sends_Nil)
  have "nat (jobs adder) = 2" by (simp add: adder_def)
  then have "rel_mset (\<lambda>x r. r = x + 1) J (received ?s)"
    using rel by (simp add: answers_adder)
  then have img: "received ?s = image_mset (\<lambda>x. x + 1) J" by (rule rel_mset_fun)
  have "size (received ?s) = size J" using img by simp
  moreover have "size (received ?s) = 4" using R by simp
  ultimately have "size J = 4" by simp
  then have "J = {#1, 2, 3, 4#}" using J by (intro sub_size_eq) simp_all
  then have "received ?s = {#2, 3, 4, 5#}" using img by simp
  then have "mset [r1, r2, r3, r4] = {#2, 3, 4, 5#}" using R by simp
  moreover have "outputs ?s = [Returned_None, Returned_None, Returned_None, Returned_None]
      @ map Returned_resp [r1, r2, r3, r4] @ [Returned_None, Returned_finals [1, 1]]"
    using o xs by simp
  ultimately show "\<exists>rs. outputs ?s
            = [Returned_None, Returned_None, Returned_None, Returned_None]
              @ map Returned_resp rs @ [Returned_None, Returned_finals [1, 1]]
          \<and> mset rs = {#2, 3, 4, 5#}"
    by blast
qed

theorem adder_scenario_witness:
  "ProcessPool adder
     = Inr \<lparr>requests = [], requests_closed = False, responses = [], responses_closed = False,
            workers = [Starting, Starting], closed = False, erred = False\<rparr>
   \<and> todo (run adder
        [Caller, Caller, Caller, Caller, Worker 0, Worker 1, Worker 0, Worker 1, Worker 1,
         Worker 0, Worker 0, Worker 1, Worker 1, Worker 0, Caller, Caller, Caller, Caller,
         Caller, Worker 1, Worker 1, Worker 0, Worker 0,
         Caller, Caller, Caller, Caller, Caller, Caller]
        (with_calls
           \<lparr>requests = [], requests_closed = False, responses = [], responses_closed = False,
            workers = [Starting, Starting], closed = False, erred = False\<rparr> scenario)) = []
   \<and> outputs (run adder
        [Caller, Caller, Caller, Caller, Worker 0, Worker 1, Worker 0, Worker 1, Worker 1,
         Worker 0, Worker 0, Worker 1, Worker 1, Worker 0, Caller, Caller, Caller, Caller,
         Caller, Worker 1, Worker 1, Worker 0, Worker 0,
         Caller, Caller, Caller, Caller, Caller, Caller]
        (with_calls
           \<lparr>requests = [], requests_closed = False, responses = [], responses_closed = False,
            workers = [Starting, Starting], closed = False, erred = False\<rparr> scenario))
     = [Returned_None, Returned_None, Returned_None, Returned_None]
       @ map Returned_resp [3, 2, 5, 4] @ [Returned_None, Returned_finals [1, 1]]
   \<and> mset [3, 2, 5, 4 :: int] = {#2, 3, 4, 5#}"
  using adder_scenario [of
      "\<lparr>requests = [], requests_closed = False, responses = [], responses_closed = False,
        workers = [Starting, Starting], closed = False, erred = False\<rparr>"
      "[Caller, Caller, Caller, Caller, Worker 0, Worker 1, Worker 0, Worker 1, Worker 1,
        Worker 0, Worker 0, Worker 1, Worker 1, Worker 0, Caller, Caller, Caller, Caller,
        Caller, Worker 1, Worker 1, Worker 0, Worker 0,
        Caller, Caller, Caller, Caller, Caller, Caller]"]
  by (simp add: run_simps scenario_def)

text \<open>
  Claim C5 as stated fails on the responses: they are 2, 3, 4, 5, one more than each job,
  not the multiset \<open>{2, 3, 3, 4}\<close>.
\<close>

theorem adder_scenario_not_2334:
  "ProcessPool adder
     = Inr \<lparr>requests = [], requests_closed = False, responses = [], responses_closed = False,
            workers = [Starting, Starting], closed = False, erred = False\<rparr>
   \<and> outputs (run adder
        [Caller, Caller, Caller, Caller, Worker 0, Worker 0, Worker 0, Worker 0, Worker 0,
         Worker 1, Worker 1, Worker 1, Worker 1, Worker 1, Caller, Caller, Caller, Caller,
         Caller, Worker 0, Worker 0, Worker 1, Worker 1,
         Caller, Caller, Caller, Caller, Caller, Caller]
        (with_calls
           \<lparr>requests = [], requests_closed = False, responses = [], responses_closed = False,
            workers = [Starting, Starting], closed = False, erred = False\<rparr> scenario))
     = [Returned_None, Returned_None, Returned_None, Returned_None,
        Returned_resp 2, Returned_resp 3, Returned_resp 4, Returned_resp 5,
        Returned_None, Returned_finals [1, 1]]
   \<and> mset [2, 3, 4, 5 :: int] \<noteq> {#2, 3, 3, 4#}"
  by (simp add: run_simps scenario_def)

end
